theory Spec2Isabelle
  imports Main
begin

section \<open>The template tree engine of harvest (package node)\<close>

text \<open>
  The Go package keeps a tree of \<^verbatim>\<open>*Node\<close> values that point at each other: a node
  holds the pointers of its children and a back pointer to its parent, and \<^verbatim>\<open>Union\<close> and
  \<^verbatim>\<open>Merge\<close> adopt nodes of the source tree by pointer. The model therefore has an
  explicit store: a pointer is an address, the store maps every address to the fields of
  the node that lives there, and every method takes the store and returns the new one.

  \<^item> A Go \<^verbatim>\<open>*Node\<close> that may be nil is a \<open>ref option\<close>; the receiver of a method and
    the elements of a child slice are addresses (the package stores no nil pointer in a
    child slice).
  \<^item> \<^verbatim>\<open>[]byte\<close> and \<^verbatim>\<open>string\<close> are both \<open>string\<close> (a list of 8-bit characters); the
    package never tells a nil byte slice from an empty one.
  \<^item> \<^verbatim>\<open>Children\<close> is a \<open>ref list option\<close>: \<open>None\<close> is the nil slice, which
    \<^verbatim>\<open>Union\<close> tells apart from an empty one. Every node owns the backing array of its
    slice: a slice is a value of the model.
  \<^item> A panic of the Go runtime is an \<open>error\<close> value. The recursive methods take a
    bound on the depth of their recursion; running out of it is the error \<open>OutOfFuel\<close>,
    which stands for a call that does not return.
\<close>

type_synonym ref = nat

datatype error = NilDereference | IndexOutOfRange | OutOfFuel

record xml_Name =
  Space :: string
  Local :: string

record xml_Attr =
  Name :: xml_Name
  Value :: string

record Node =
  parent :: "ref option"
  name :: string
  XMLName :: xml_Name
  Attrs :: "xml_Attr list"
  Content :: string
  Children :: "ref list option"

record heap =
  nodes :: "ref \<Rightarrow> Node"
  next_ref :: ref

text \<open>The zero value of \<^verbatim>\<open>Node\<close>, and the allocation of a node at the next free address.\<close>

definition zero_Name :: xml_Name where
  "zero_Name = \<lparr>Space = [], Local = []\<rparr>"

definition zero_Node :: Node where
  "zero_Node = \<lparr>parent = None, name = [], XMLName = zero_Name, Attrs = [],
                 Content = [], Children = None\<rparr>"

definition alloc :: "heap \<Rightarrow> Node \<Rightarrow> heap \<times> ref" where
  "alloc h v = (h\<lparr>nodes := (nodes h)(next_ref h := v), next_ref := Suc (next_ref h)\<rparr>, next_ref h)"

definition update :: "heap \<Rightarrow> ref \<Rightarrow> (Node \<Rightarrow> Node) \<Rightarrow> heap" where
  "update h r f = h\<lparr>nodes := (nodes h)(r := f (nodes h r))\<rparr>"

text \<open>\<^verbatim>\<open>range n.Children\<close> and \<^verbatim>\<open>len(n.Children)\<close> read a nil slice as an empty one.\<close>

definition kids :: "heap \<Rightarrow> ref \<Rightarrow> ref list" where
  "kids h n = (case Children (nodes h n) of None \<Rightarrow> [] | Some cs \<Rightarrow> cs)"

subsection \<open>Construction and names\<close>

definition New :: "heap \<Rightarrow> string \<Rightarrow> heap \<times> ref" where
  "New h nm = alloc h (zero_Node\<lparr>name := nm\<rparr>)"

definition NewXMLS :: "heap \<Rightarrow> string \<Rightarrow> heap \<times> ref" where
  "NewXMLS h nm = alloc h (zero_Node\<lparr>XMLName := \<lparr>Space = [], Local = nm\<rparr>\<rparr>)"

definition NewXML :: "heap \<Rightarrow> string \<Rightarrow> heap \<times> ref" where
  "NewXML h nm = NewXMLS h nm"

definition GetXMLNameS :: "heap \<Rightarrow> ref \<Rightarrow> string" where
  "GetXMLNameS h n = Local (XMLName (nodes h n))"

definition GetName :: "heap \<Rightarrow> ref \<Rightarrow> string" where
  "GetName h n = (if GetXMLNameS h n \<noteq> [] then GetXMLNameS h n else name (nodes h n))"

definition GetNameS :: "heap \<Rightarrow> ref \<Rightarrow> string" where
  "GetNameS h n = (if GetXMLNameS h n \<noteq> [] then GetXMLNameS h n else name (nodes h n))"

definition GetParent :: "heap \<Rightarrow> ref \<Rightarrow> ref option" where
  "GetParent h n = parent (nodes h n)"

definition GetChildren :: "heap \<Rightarrow> ref \<Rightarrow> ref list option" where
  "GetChildren h n = Children (nodes h n)"

subsection \<open>Children\<close>

text \<open>The lookups are loops that return at the first child that matches.\<close>

fun first_index :: "('a \<Rightarrow> bool) \<Rightarrow> 'a list \<Rightarrow> nat option" where
  "first_index P [] = None"
| "first_index P (x # xs) = (if P x then Some 0 else map_option Suc (first_index P xs))"

definition GetChild :: "heap \<Rightarrow> ref \<Rightarrow> string \<Rightarrow> ref option" where
  "GetChild h n nm = find (\<lambda>child. GetName h child = nm) (kids h n)"

definition GetChildS :: "heap \<Rightarrow> ref \<Rightarrow> string \<Rightarrow> ref option" where
  "GetChildS h n nm = find (\<lambda>child. GetNameS h child = nm) (kids h n)"

definition HasChild :: "heap \<Rightarrow> ref \<Rightarrow> string \<Rightarrow> bool" where
  "HasChild h n nm = (GetChild h n nm \<noteq> None)"

definition HasChildS :: "heap \<Rightarrow> ref \<Rightarrow> string \<Rightarrow> bool" where
  "HasChildS h n nm = (GetChildS h n nm \<noteq> None)"

text \<open>
  \<^verbatim>\<open>PopChild\<close> writes the last element over the first match and cuts the slice by one;
  the slice it leaves is not nil.
\<close>

definition PopChild :: "heap \<Rightarrow> ref \<Rightarrow> string \<Rightarrow> heap \<times> ref option" where
  "PopChild h n nm =
     (let cs = kids h n in
      case first_index (\<lambda>child. GetName h child = nm) cs of
        None \<Rightarrow> (h, None)
      | Some i \<Rightarrow>
          (update h n (\<lambda>v. v\<lparr>Children := Some (butlast (cs[i := cs ! (length cs - 1)]))\<rparr>),
           Some (cs ! i)))"

definition PopChildS :: "heap \<Rightarrow> ref \<Rightarrow> string \<Rightarrow> heap \<times> ref option" where
  "PopChildS h n nm = PopChild h n nm"

definition AddChild :: "heap \<Rightarrow> ref \<Rightarrow> ref \<Rightarrow> heap" where
  "AddChild h n child = update h n (\<lambda>v. v\<lparr>Children := Some (kids h n @ [child])\<rparr>)"

definition NewChild :: "heap \<Rightarrow> ref \<Rightarrow> string \<Rightarrow> string \<Rightarrow> heap \<times> ref" where
  "NewChild h n nm content =
     (let (h1, child) = (if GetXMLNameS h n \<noteq> [] then NewXML h nm else New h nm);
          h2 = update h1 child (\<lambda>v. v\<lparr>parent := Some n\<rparr>);
          h3 = update h2 child (\<lambda>v. v\<lparr>Content := content\<rparr>)
      in (AddChild h3 n child, child))"

definition NewChildS :: "heap \<Rightarrow> ref \<Rightarrow> string \<Rightarrow> string \<Rightarrow> heap \<times> ref" where
  "NewChildS h n nm content = NewChild h n nm content"

subsection \<open>Content\<close>

text \<open>
  \<^verbatim>\<open>bytes.TrimSpace\<close> of the Go library cuts the white space of Unicode from both ends
  of a UTF-8 byte string: the six white-space characters of ASCII, and U+0085, U+00A0,
  U+1680, U+2000 to U+200A, U+2028, U+2029, U+202F, U+205F and U+3000 in their UTF-8
  encoding. It trims the front first and then the back of what is left.
\<close>

definition asciiSpace :: "char \<Rightarrow> bool" where
  "asciiSpace c = (c = CHR 0x09 \<or> c = CHR 0x0A \<or> c = CHR 0x0B \<or> c = CHR 0x0C
                   \<or> c = CHR 0x0D \<or> c = CHR 0x20)"

definition unicodeSpaces :: "string list" where
  "unicodeSpaces =
     [[CHR 0xC2, CHR 0x85], [CHR 0xC2, CHR 0xA0], [CHR 0xE1, CHR 0x9A, CHR 0x80],
      [CHR 0xE2, CHR 0x80, CHR 0x80], [CHR 0xE2, CHR 0x80, CHR 0x81],
      [CHR 0xE2, CHR 0x80, CHR 0x82], [CHR 0xE2, CHR 0x80, CHR 0x83],
      [CHR 0xE2, CHR 0x80, CHR 0x84], [CHR 0xE2, CHR 0x80, CHR 0x85],
      [CHR 0xE2, CHR 0x80, CHR 0x86], [CHR 0xE2, CHR 0x80, CHR 0x87],
      [CHR 0xE2, CHR 0x80, CHR 0x88], [CHR 0xE2, CHR 0x80, CHR 0x89],
      [CHR 0xE2, CHR 0x80, CHR 0x8A], [CHR 0xE2, CHR 0x80, CHR 0xA8],
      [CHR 0xE2, CHR 0x80, CHR 0xA9], [CHR 0xE2, CHR 0x80, CHR 0xAF],
      [CHR 0xE2, CHR 0x81, CHR 0x9F], [CHR 0xE3, CHR 0x80, CHR 0x80]]"

text \<open>The width in bytes of the white-space character a string starts or ends with, 0 if
  it starts or ends with none.\<close>

definition firstSpace :: "string \<Rightarrow> nat" where
  "firstSpace s =
     (case s of [] \<Rightarrow> 0
      | c # _ \<Rightarrow> if asciiSpace c then 1
                else (case find (\<lambda>u. take (length u) s = u) unicodeSpaces of
                        None \<Rightarrow> 0 | Some u \<Rightarrow> length u))"

definition lastSpace :: "string \<Rightarrow> nat" where
  "lastSpace s =
     (case rev s of [] \<Rightarrow> 0
      | c # _ \<Rightarrow> if asciiSpace c then 1
                else (case find (\<lambda>u. drop (length s - length u) s = u) unicodeSpaces of
                        None \<Rightarrow> 0 | Some u \<Rightarrow> length u))"

lemma firstSpace_le: "firstSpace s \<le> length s"
proof (cases s)
  case Nil
  then show ?thesis by (simp add: firstSpace_def)
next
  case (Cons c cs)
  show ?thesis
  proof (cases "find (\<lambda>u. take (length u) s = u) unicodeSpaces")
    case None
    then show ?thesis using Cons by (simp add: firstSpace_def)
  next
    case (Some u)
    then have "take (length u) s = u" by (auto simp: find_Some_iff)
    then have "length (take (length u) s) = length u" by simp
    then have "length u \<le> length s" by simp
    then show ?thesis using Cons Some by (simp add: firstSpace_def)
  qed
qed

lemma lastSpace_le: "lastSpace s \<le> length s"
proof (cases "rev s")
  case Nil
  then show ?thesis by (simp add: lastSpace_def)
next
  case (Cons c cs)
  then have ne: "s \<noteq> []" by auto
  show ?thesis
  proof (cases "find (\<lambda>u. drop (length s - length u) s = u) unicodeSpaces")
    case None
    then show ?thesis using Cons ne by (cases s) (simp_all add: lastSpace_def)
  next
    case (Some u)
    then have "drop (length s - length u) s = u" by (auto simp: find_Some_iff)
    then have "length (drop (length s - length u) s) = length u" by simp
    then have "length u \<le> length s" by simp
    then show ?thesis using Cons Some ne by (cases s) (simp_all add: lastSpace_def)
  qed
qed

function TrimLeft :: "string \<Rightarrow> string" where
  "TrimLeft s = (if firstSpace s = 0 then s else TrimLeft (drop (firstSpace s) s))"
  by pat_completeness auto
termination
proof (relation "measure length")
  show "wf (measure length)" by simp
next
  fix s :: string
  assume "firstSpace s \<noteq> 0"
  moreover have "firstSpace s \<le> length s" by (rule firstSpace_le)
  ultimately show "(drop (firstSpace s) s, s) \<in> measure length" by simp
qed

function TrimRight :: "string \<Rightarrow> string" where
  "TrimRight s = (if lastSpace s = 0 then s else TrimRight (take (length s - lastSpace s) s))"
  by pat_completeness auto
termination
proof (relation "measure length")
  show "wf (measure length)" by simp
next
  fix s :: string
  assume "lastSpace s \<noteq> 0"
  moreover have "lastSpace s \<le> length s" by (rule lastSpace_le)
  ultimately show "(take (length s - lastSpace s) s, s) \<in> measure length" by simp
qed

declare TrimLeft.simps [simp del]
declare TrimRight.simps [simp del]

definition TrimSpace :: "string \<Rightarrow> string" where
  "TrimSpace s = TrimRight (TrimLeft s)"

text \<open>The strings that are white space only: what \<^verbatim>\<open>TrimSpace\<close> may cut.\<close>

inductive spaces :: "string \<Rightarrow> bool" where
  spaces_Nil: "spaces []"
| spaces_ascii: "asciiSpace c \<Longrightarrow> spaces s \<Longrightarrow> spaces (c # s)"
| spaces_unicode: "u \<in> set unicodeSpaces \<Longrightarrow> spaces s \<Longrightarrow> spaces (u @ s)"

definition GetContent :: "heap \<Rightarrow> ref \<Rightarrow> string" where
  "GetContent h n =
     (let content = TrimSpace (Content (nodes h n)) in
      if length content \<noteq> 0 \<and> content ! 0 \<noteq> CHR ''<'' then content else [])"

definition GetContentS :: "heap \<Rightarrow> ref \<Rightarrow> string" where
  "GetContentS h n = Content (nodes h n)"

definition GetChildContent :: "heap \<Rightarrow> ref \<Rightarrow> string \<Rightarrow> string" where
  "GetChildContent h n nm =
     (case GetChild h n nm of Some child \<Rightarrow> GetContent h child | None \<Rightarrow> [])"

definition GetChildContentS :: "heap \<Rightarrow> ref \<Rightarrow> string \<Rightarrow> string" where
  "GetChildContentS h n nm =
     (case GetChildS h n nm of Some child \<Rightarrow> GetContentS h child | None \<Rightarrow> [])"

definition GetChildByContent :: "heap \<Rightarrow> ref \<Rightarrow> string \<Rightarrow> ref option" where
  "GetChildByContent h n content = find (\<lambda>child. GetContentS h child = content) (kids h n)"

definition SetContent :: "heap \<Rightarrow> ref \<Rightarrow> string \<Rightarrow> heap" where
  "SetContent h n content = update h n (\<lambda>v. v\<lparr>Content := content\<rparr>)"

definition SetContentS :: "heap \<Rightarrow> ref \<Rightarrow> string \<Rightarrow> heap" where
  "SetContentS h n content = SetContent h n content"

definition SetChildContentS :: "heap \<Rightarrow> ref \<Rightarrow> string \<Rightarrow> string \<Rightarrow> heap" where
  "SetChildContentS h n nm content =
     (case GetChildS h n nm of
        Some child \<Rightarrow> SetContentS h child content
      | None \<Rightarrow> fst (NewChildS h n nm content))"

subsection \<open>Copy\<close>

text \<open>
  The clone is built by \<^verbatim>\<open>New\<close> or \<^verbatim>\<open>NewXML\<close> from the name alone, so its attributes
  and its parent pointer are the zero values; its content is what \<^verbatim>\<open>GetContent\<close> returns
  for the source, and each child is cloned in turn and appended.
\<close>

fun Copy :: "nat \<Rightarrow> heap \<Rightarrow> ref \<Rightarrow> error + heap \<times> ref"
  and Copy_loop :: "nat \<Rightarrow> ref \<Rightarrow> ref list \<Rightarrow> heap \<Rightarrow> error + heap" where
  "Copy 0 h n = Inl OutOfFuel"
| "Copy (Suc k) h n =
     (let (h1, clone) = (if GetXMLNameS h n \<noteq> [] then NewXML h (GetName h n)
                         else New h (GetName h n));
          h2 = SetContent h1 clone (GetContent h1 n)
      in case Copy_loop k clone (kids h2 n) h2 of
           Inl e \<Rightarrow> Inl e
         | Inr h3 \<Rightarrow> Inr (h3, clone))"
| "Copy_loop k clone [] h = Inr h"
| "Copy_loop k clone (child # rest) h =
     (case Copy k h child of
        Inl e \<Rightarrow> Inl e
      | Inr (h1, c) \<Rightarrow>
          Copy_loop k clone rest
            (update h1 clone (\<lambda>v. v\<lparr>Children := Some (kids h1 clone @ [c])\<rparr>)))"

subsection \<open>Union\<close>

text \<open>
  \<^verbatim>\<open>Union\<close> reads \<^verbatim>\<open>source.GetContent()\<close> or \<^verbatim>\<open>source.Children\<close> on every path,
  so a nil source is a nil dereference. The test that chooses between the recursion and the
  overwrite is \<^verbatim>\<open>child.GetChildren() != nil\<close>, on the child of the source.
\<close>

fun Union_node :: "nat \<Rightarrow> ref \<Rightarrow> ref option \<Rightarrow> heap \<Rightarrow> error + heap"
  and Union_loop :: "nat \<Rightarrow> ref \<Rightarrow> ref list \<Rightarrow> heap \<Rightarrow> error + heap" where
  "Union_node k n None h = Inl NilDereference"
| "Union_node 0 n (Some source) h = Inl OutOfFuel"
| "Union_node (Suc k) n (Some source) h =
     (let h1 = (if length (GetContent h n) = 0 then SetContent h n (GetContent h source) else h)
      in Union_loop k n (kids h1 source) h1)"
| "Union_loop k n [] h = Inr h"
| "Union_loop k n (child # rest) h =
     (if \<not> HasChild h n (GetName h child) then Union_loop k n rest (AddChild h n child)
      else if GetChildren h child \<noteq> None then
        (case GetChild h n (GetName h child) of
           None \<Rightarrow> Inl NilDereference
         | Some mine \<Rightarrow>
             (case Union_node k mine (Some child) h of
                Inl e \<Rightarrow> Inl e
              | Inr h1 \<Rightarrow> Union_loop k n rest h1))
      else Union_loop k n rest (SetChildContentS h n (GetNameS h child) (GetContentS h child)))"

subsection \<open>Ancestors and the preprocessing of a template\<close>

fun searchAncestor :: "nat \<Rightarrow> heap \<Rightarrow> ref option \<Rightarrow> string \<Rightarrow> error + ref option" where
  "searchAncestor k h None ancestor = Inr None"
| "searchAncestor 0 h (Some n) ancestor = Inl OutOfFuel"
| "searchAncestor (Suc k) h (Some n) ancestor =
     (case GetParent h n of
        None \<Rightarrow> Inr None
      | Some p \<Rightarrow> if GetNameS h p = ancestor then Inr (Some n)
                  else searchAncestor k h (Some p) ancestor)"

text \<open>
  \<^verbatim>\<open>PreprocessTemplate\<close> has two bounds: \<open>k\<close> for its own recursion and \<open>f\<close> for the
  walk of \<^verbatim>\<open>searchAncestor\<close> up the parent pointers.
\<close>

fun PreprocessTemplate :: "nat \<Rightarrow> nat \<Rightarrow> ref \<Rightarrow> heap \<Rightarrow> error + heap"
  and PreprocessTemplate_loop :: "nat \<Rightarrow> nat \<Rightarrow> ref \<Rightarrow> ref list \<Rightarrow> heap \<Rightarrow> error + heap" where
  "PreprocessTemplate 0 f n h = Inl OutOfFuel"
| "PreprocessTemplate (Suc k) f n h = PreprocessTemplate_loop k f n (kids h n) h"
| "PreprocessTemplate_loop k f n [] h = Inr h"
| "PreprocessTemplate_loop k f n (child # rest) h =
     (case GetChild h n (GetName h child) of
        None \<Rightarrow> PreprocessTemplate_loop k f n rest h
      | Some mine \<Rightarrow>
          if length (GetName h child) > 0 then
            (case searchAncestor f h (Some mine) ''LabelAgent'' of
               Inl e \<Rightarrow> Inl e
             | Inr a \<Rightarrow>
                 (let h1 = (if a \<noteq> None \<and> length (GetContentS h mine) > 0
                            then SetContentS (fst (NewChildS h mine [] (GetContentS h child))) mine []
                            else h)
                  in case PreprocessTemplate k f mine h1 of
                       Inl e \<Rightarrow> Inl e
                     | Inr h2 \<Rightarrow> PreprocessTemplate_loop k f n rest h2))
          else PreprocessTemplate_loop k f n rest h)"

subsection \<open>Merge\<close>

text \<open>
  Modelled from the spec: \<^verbatim>\<open>util.Contains\<close> (package \<^verbatim>\<open>pkg/util\<close>) tells whether a name
  "is in the caller-supplied skip-overwrite set".
\<close>

definition Contains :: "string list \<Rightarrow> string \<Rightarrow> bool" where
  "Contains xs x = List.member xs x"

fun Merge :: "nat \<Rightarrow> ref \<Rightarrow> ref option \<Rightarrow> string list \<Rightarrow> heap \<Rightarrow> error + heap"
  and Merge_loop :: "nat \<Rightarrow> ref \<Rightarrow> ref list \<Rightarrow> string list \<Rightarrow> heap \<Rightarrow> error + heap" where
  "Merge k n None skipOverwrite h = Inr h"
| "Merge 0 n (Some subtemplate) skipOverwrite h = Inl OutOfFuel"
| "Merge (Suc k) n (Some subtemplate) skipOverwrite h =
     (let h1 = (if length (Content (nodes h n)) = 0
                then update h n (\<lambda>v. v\<lparr>Content := Content (nodes h subtemplate)\<rparr>) else h)
      in Merge_loop k n (kids h1 subtemplate) skipOverwrite h1)"
| "Merge_loop k n [] skipOverwrite h = Inr h"
| "Merge_loop k n (child # rest) skipOverwrite h =
     (let mine = GetChild h n (GetName h child) in
      if length (GetName h child) = 0 then
        (case (case mine of None \<Rightarrow> None | Some m \<Rightarrow>
                 (case GetParent h m of None \<Rightarrow> None | Some p \<Rightarrow>
                    if GetChildByContent h p (GetContentS h child) = None then Some p else None)) of
           Some p \<Rightarrow> Merge_loop k n rest skipOverwrite (AddChild h p child)
         | None \<Rightarrow>
             if GetChildByContent h n (GetContentS h child) = None
             then Merge_loop k n rest skipOverwrite (AddChild h n child)
             else Merge_loop k n rest skipOverwrite h)
      else
        (case mine of
           None \<Rightarrow> Merge_loop k n rest skipOverwrite (AddChild h n child)
         | Some m \<Rightarrow>
             (let h1 = (if (case GetParent h m of None \<Rightarrow> False
                            | Some p \<Rightarrow> Contains skipOverwrite (GetNameS h p))
                        then SetContentS h m (GetContentS h m @ '','' @ GetContentS h child)
                        else SetContentS h m (GetContentS h child))
              in case Merge k m (Some child) skipOverwrite h1 of
                   Inl e \<Rightarrow> Inl e
                 | Inr h2 \<Rightarrow> Merge_loop k n rest skipOverwrite h2)))"

subsection \<open>FlatList\<close>

text \<open>
  \<^verbatim>\<open>simpleName\<close> is the leftmost match of the regular expression \<^verbatim>\<open>(\w|-)+\<close>: the
  first longest run of letters, digits, underscores and hyphens of ASCII, empty if there
  is none.
\<close>

definition wordChar :: "char \<Rightarrow> bool" where
  "wordChar c =
     (let k = (of_char c :: nat) in
      (48 \<le> k \<and> k \<le> 57) \<or> (65 \<le> k \<and> k \<le> 90) \<or> (97 \<le> k \<and> k \<le> 122) \<or> k = 95 \<or> k = 45)"

definition simpleName :: "string \<Rightarrow> string" where
  "simpleName s = takeWhile wordChar (dropWhile (\<lambda>c. \<not> wordChar c) s)"

fun FlatList :: "nat \<Rightarrow> heap \<Rightarrow> ref option \<Rightarrow> string list \<Rightarrow> string \<Rightarrow> error + string list"
  and FlatList_loop :: "nat \<Rightarrow> heap \<Rightarrow> ref list \<Rightarrow> string list \<Rightarrow> string \<Rightarrow> error + string list" where
  "FlatList k h None list prefix = Inr list"
| "FlatList 0 h (Some n) list prefix = Inl OutOfFuel"
| "FlatList (Suc k) h (Some n) list prefix =
     (if length (kids h n) = 0 then
        (let sub = (if length prefix > 0 then prefix @ '' '' @ simpleName (GetContentS h n)
                    else simpleName (GetContentS h n))
         in Inr (list @ [sub]))
      else
        (let nameS = GetNameS h n;
             prefix1 = (if length nameS > 0 \<and> nameS \<noteq> ''counters''
                        then (if prefix = [] then nameS else prefix @ '' '' @ nameS)
                        else prefix)
         in FlatList_loop k h (kids h n) list prefix1))"
| "FlatList_loop k h [] list prefix = Inr list"
| "FlatList_loop k h (child # rest) list prefix =
     (case FlatList k h (Some child) list prefix of
        Inl e \<Rightarrow> Inl e
      | Inr list1 \<Rightarrow> FlatList_loop k h rest list1 prefix)"

subsection \<open>SearchChildren\<close>

text \<open>
  Modelled from the spec: \<^verbatim>\<open>util.EqualStringSlice\<close> (package \<^verbatim>\<open>pkg/util\<close>) tells
  whether "the running path exactly equals" the target path.
\<close>

definition EqualStringSlice :: "string list \<Rightarrow> string list \<Rightarrow> bool" where
  "EqualStringSlice a b = (a = b)"

text \<open>
  The closure \<^verbatim>\<open>search\<close> reads \<^verbatim>\<open>path[0]\<close> when the running path is empty, which is
  an index out of range for an empty path.
\<close>

fun search :: "nat \<Rightarrow> heap \<Rightarrow> string list \<Rightarrow> ref \<Rightarrow> string list \<Rightarrow> ref list \<Rightarrow> error + ref list"
  and search_loop :: "nat \<Rightarrow> heap \<Rightarrow> string list \<Rightarrow> ref list \<Rightarrow> string list \<Rightarrow> ref list \<Rightarrow> error + ref list" where
  "search 0 h path node currentPath matches = Inl OutOfFuel"
| "search (Suc k) h path node currentPath matches =
     (if \<not> length currentPath > 0 \<and> path = [] then Inl IndexOutOfRange
      else
        (let newPath = (if length currentPath > 0 \<or> path ! 0 = GetNameS h node
                        then currentPath @ [GetNameS h node] else currentPath)
         in if EqualStringSlice newPath path then Inr (matches @ [node])
            else if length newPath < length path
            then search_loop k h path (kids h node) newPath matches
            else Inr matches))"
| "search_loop k h path [] currentPath matches = Inr matches"
| "search_loop k h path (child # rest) currentPath matches =
     (case search k h path child currentPath matches of
        Inl e \<Rightarrow> Inl e
      | Inr matches1 \<Rightarrow> search_loop k h path rest currentPath matches1)"

definition SearchChildren :: "nat \<Rightarrow> heap \<Rightarrow> ref \<Rightarrow> string list \<Rightarrow> error + ref list" where
  "SearchChildren k h n path = search k h path n [] []"

subsection \<open>Trees in the store\<close>

text \<open>
  The nodes below \<open>n\<close> form a structure of at most \<open>k\<close> levels: every chain of children
  that starts at \<open>n\<close> ends after at most \<open>k\<close> nodes. Such a structure has no cycle, and a
  traversal with the bound \<open>k\<close> does not run out of it.
\<close>

fun within_depth :: "nat \<Rightarrow> heap \<Rightarrow> ref \<Rightarrow> bool" where
  "within_depth 0 h n = False"
| "within_depth (Suc k) h n = list_all (within_depth k h) (kids h n)"

subsection \<open>Name paths: the specification of the path search\<close>

text \<open>
  The specification speaks of the nodes of a tree in pre-order and of the names on the way
  from the root of the search to a node. \<open>walk\<close> lists the nodes below \<open>n\<close> in pre-order,
  each with the names from the root down to it (\<open>trail\<close> holds the names above \<open>n\<close>). A name
  path is \<open>anchored\<close> at a search path when what is left of it from the first name that
  equals the first segment on is the search path; \<open>found\<close> keeps the nodes of a walk whose
  name path is anchored, in the order of the walk.
\<close>

fun walk :: "nat \<Rightarrow> heap \<Rightarrow> ref \<Rightarrow> string list \<Rightarrow> (ref \<times> string list) list" where
  "walk 0 h n trail = []"
| "walk (Suc k) h n trail =
     (n, trail @ [GetNameS h n]) # concat (map (\<lambda>c. walk k h c (trail @ [GetNameS h n])) (kids h n))"

definition anchored :: "string list \<Rightarrow> string list \<Rightarrow> bool" where
  "anchored path names = (dropWhile (\<lambda>x. x \<noteq> hd path) names = path)"

definition found :: "string list \<Rightarrow> (ref \<times> string list) list \<Rightarrow> ref list" where
  "found path ws = map fst (filter (\<lambda>w. anchored path (snd w)) ws)"

text \<open>
  The nodes below \<open>n\<close> form a structure of at most \<open>k\<close> levels all of whose nodes have
  addresses from \<open>lo\<close> up to, not including, \<open>hi\<close>.
\<close>

fun tree_in :: "nat \<Rightarrow> ref \<Rightarrow> ref \<Rightarrow> heap \<Rightarrow> ref \<Rightarrow> bool" where
  "tree_in 0 lo hi h n = False"
| "tree_in (Suc k) lo hi h n = (lo \<le> n \<and> n < hi \<and> list_all (tree_in k lo hi h) (kids h n))"

subsection \<open>The shape of a copy\<close>

text \<open>
  The node at \<open>c\<close> in the store \<open>h'\<close> is a copy of the node at \<open>n\<close> in the store \<open>h\<close>: it
  has the name of \<open>n\<close>, its content is what \<^verbatim>\<open>GetContent\<close> returns for \<open>n\<close>, and its children
  are, one by one and in the same order, copies of the children of \<open>n\<close>.
\<close>

fun copy_of :: "nat \<Rightarrow> heap \<Rightarrow> heap \<Rightarrow> ref \<Rightarrow> ref \<Rightarrow> bool" where
  "copy_of 0 h h' n c = False"
| "copy_of (Suc k) h h' n c =
     (GetName h' c = GetName h n \<and> Content (nodes h' c) = GetContent h n \<and>
      list_all2 (copy_of k h h') (kids h n) (kids h' c))"

text \<open>Two stores hold the same nodes at the addresses from \<open>lo\<close> up to \<open>hi\<close>.\<close>

definition agree :: "ref \<Rightarrow> ref \<Rightarrow> heap \<Rightarrow> heap \<Rightarrow> bool" where
  "agree lo hi g h = (\<forall>r. lo \<le> r \<and> r < hi \<longrightarrow> nodes g r = nodes h r)"

subsection \<open>One turn of the loop of Merge\<close>

text \<open>
  The body of the loop of \<^verbatim>\<open>Merge\<close> for one child of the subtemplate, as a function of
  its own: \<open>Merge_loop_Cons\<close> below shows that the loop runs it for each child in turn.
\<close>

definition Merge_child :: "nat \<Rightarrow> ref \<Rightarrow> ref \<Rightarrow> string list \<Rightarrow> heap \<Rightarrow> error + heap" where
  "Merge_child k n child skipOverwrite h =
     (let mine = GetChild h n (GetName h child) in
      if length (GetName h child) = 0 then
        (case (case mine of None \<Rightarrow> None | Some m \<Rightarrow>
                 (case GetParent h m of None \<Rightarrow> None | Some p \<Rightarrow>
                    if GetChildByContent h p (GetContentS h child) = None then Some p else None)) of
           Some p \<Rightarrow> Inr (AddChild h p child)
         | None \<Rightarrow>
             if GetChildByContent h n (GetContentS h child) = None
             then Inr (AddChild h n child)
             else Inr h)
      else
        (case mine of
           None \<Rightarrow> Inr (AddChild h n child)
         | Some m \<Rightarrow>
             Merge k m (Some child) skipOverwrite
               (if (case GetParent h m of None \<Rightarrow> False
                    | Some p \<Rightarrow> Contains skipOverwrite (GetNameS h p))
                then SetContentS h m (GetContentS h m @ '','' @ GetContentS h child)
                else SetContentS h m (GetContentS h child))))"

subsection \<open>The anonymous branch of Merge\<close>

text \<open>
  \<open>count_content\<close> is the number of children of a node that hold a given content.
  \<open>anon_target\<close> is the node the anonymous branch appends the child to, if any: the parent
  of the first anonymous child of the receiver when that parent has no child of the
  content, else the receiver when it has none; \<open>anon_step\<close> is the store after the branch
  and \<open>anon_run\<close> the store after a run of anonymous children. \<open>Merge_child_anonymous\<close>
  and \<open>Merge_loop_anonymous\<close> below show that this is what the code does.
\<close>

definition count_content :: "heap \<Rightarrow> ref \<Rightarrow> string \<Rightarrow> nat" where
  "count_content h t x = length (filter (\<lambda>y. GetContentS h y = x) (kids h t))"

definition anon_target :: "heap \<Rightarrow> ref \<Rightarrow> string \<Rightarrow> ref option" where
  "anon_target h n x =
     (case (case GetChild h n [] of None \<Rightarrow> None | Some m \<Rightarrow>
              (case GetParent h m of None \<Rightarrow> None | Some p \<Rightarrow>
                 if GetChildByContent h p x = None then Some p else None)) of
        Some p \<Rightarrow> Some p
      | None \<Rightarrow> if GetChildByContent h n x = None then Some n else None)"

definition anon_step :: "heap \<Rightarrow> ref \<Rightarrow> ref \<Rightarrow> heap" where
  "anon_step h n c =
     (case anon_target h n (GetContentS h c) of None \<Rightarrow> h | Some t \<Rightarrow> AddChild h t c)"

definition anon_run :: "heap \<Rightarrow> ref \<Rightarrow> ref list \<Rightarrow> heap" where
  "anon_run h n cs = foldl (\<lambda>g c. anon_step g n c) h cs"

text \<open>
  The receiver holds the content, or its first anonymous child points to another parent
  that holds it.
\<close>

definition placed :: "heap \<Rightarrow> ref \<Rightarrow> string \<Rightarrow> bool" where
  "placed h n x =
     (1 \<le> count_content h n x \<or>
      (\<exists>m p. GetChild h n [] = Some m \<and> GetParent h m = Some p \<and> p \<noteq> n \<and> 1 \<le> count_content h p x))"

subsection \<open>One turn of the loop of PreprocessTemplate, and the ancestors of a node\<close>

text \<open>
  \<open>ancestors\<close> lists the nodes that the parent pointers lead to from \<open>n\<close>, nearest
  first, at most \<open>f\<close> of them. \<open>PreprocessTemplate_child\<close> is the body of the loop of
  \<^verbatim>\<open>PreprocessTemplate\<close> for one child, as a function of its own;
  \<open>PreprocessTemplate_loop_Cons\<close> below shows that the loop runs it for each child in turn.
\<close>

fun ancestors :: "nat \<Rightarrow> heap \<Rightarrow> ref \<Rightarrow> ref list" where
  "ancestors 0 h n = []"
| "ancestors (Suc f) h n =
     (case GetParent h n of None \<Rightarrow> [] | Some p \<Rightarrow> p # ancestors f h p)"

definition PreprocessTemplate_child :: "nat \<Rightarrow> nat \<Rightarrow> ref \<Rightarrow> ref \<Rightarrow> heap \<Rightarrow> error + heap" where
  "PreprocessTemplate_child k f n child h =
     (case GetChild h n (GetName h child) of
        None \<Rightarrow> Inr h
      | Some mine \<Rightarrow>
          if length (GetName h child) > 0 then
            (case searchAncestor f h (Some mine) ''LabelAgent'' of
               Inl e \<Rightarrow> Inl e
             | Inr a \<Rightarrow>
                 PreprocessTemplate k f mine
                   (if a \<noteq> None \<and> length (GetContentS h mine) > 0
                    then SetContentS (fst (NewChildS h mine [] (GetContentS h child))) mine []
                    else h))
          else Inr h)"

subsection \<open>White space as Unicode defines it: the specification of the trimming\<close>

text \<open>
  The documentation of \<^verbatim>\<open>bytes.TrimSpace\<close> says that it slices off all leading and
  trailing white space, as defined by Unicode. \<open>white_space\<close> lists the code points that
  \<^verbatim>\<open>unicode.IsSpace\<close> accepts, \<open>utf8\<close> gives the bytes of the UTF-8 encoding of a code point
  below U+10000, and \<open>white_space_bytes\<close> holds of the byte strings that encode one
  white-space character. They are written down independently of \<open>asciiSpace\<close> and
  \<open>unicodeSpaces\<close> above, which \<open>TrimSpace\<close> is built from, to state what it cuts.
\<close>

definition white_space :: "nat list" where
  "white_space = [0x09, 0x0A, 0x0B, 0x0C, 0x0D, 0x20, 0x85, 0xA0, 0x1680] @ [0x2000 ..< 0x200B] @
                 [0x2028, 0x2029, 0x202F, 0x205F, 0x3000]"

definition utf8 :: "nat \<Rightarrow> nat list" where
  "utf8 cp =
     (if cp < 0x80 then [cp]
      else if cp < 0x800 then [0xC0 + cp div 0x40, 0x80 + cp mod 0x40]
      else [0xE0 + cp div 0x1000, 0x80 + cp div 0x40 mod 0x40, 0x80 + cp mod 0x40])"

definition white_space_bytes :: "string \<Rightarrow> bool" where
  "white_space_bytes w = List.member (map utf8 white_space) (map of_char w)"

section \<open>Example stores\<close>

text \<open>Concrete stores on which the theorems below are instantiated.\<close>

definition plain :: "string \<Rightarrow> string \<Rightarrow> ref option \<Rightarrow> ref list option \<Rightarrow> Node" where
  "plain nm content p cs =
     \<lparr>parent = p, name = nm, XMLName = zero_Name, Attrs = [], Content = content, Children = cs\<rparr>"

definition store :: "Node list \<Rightarrow> heap" where
  "store vs = \<lparr>nodes = (\<lambda>r. if r < length vs then vs ! r else zero_Node), next_ref = length vs\<rparr>"

text \<open>A root with the four children a, b, c, d.\<close>

definition pop_heap :: heap where
  "pop_heap = store [plain ''root'' [] None (Some [1, 2, 3, 4]),
                     plain ''a'' [] (Some 0) None, plain ''b'' [] (Some 0) None,
                     plain ''c'' [] (Some 0) None, plain ''d'' [] (Some 0) None]"

text \<open>A root with a child whose content is padded and one whose content is markup.\<close>

definition content_heap :: heap where
  "content_heap = store [plain ''root'' [] None (Some [1, 2]),
                         plain ''x'' ''  ab  '' (Some 0) None,
                         plain ''y'' '' <b>x</b> '' (Some 0) None]"

text \<open>
  A root with two children named x, the first padded with U+3000 in front and with U+00A0
  and a line feed behind, and a child y whose content is U+0085, the lone byte A0 and a
  blank.
\<close>

definition space_heap :: heap where
  "space_heap = store [plain ''root'' [] None (Some [1, 2, 3]),
                       plain ''x'' ([CHR 0xE3, CHR 0x80, CHR 0x80] @ ''a b'' @ [CHR 0xC2, CHR 0xA0, CHR 0x0A])
                         (Some 0) None,
                       plain ''x'' ''c'' (Some 0) None,
                       plain ''y'' [CHR 0xC2, CHR 0x85, CHR 0xA0, CHR 0x20] (Some 0) None]"

text \<open>What a call left at an address, when it returned.\<close>

definition result_content :: "error + heap \<Rightarrow> ref \<Rightarrow> string option" where
  "result_content r x = (case r of Inl e \<Rightarrow> None | Inr h \<Rightarrow> Some (Content (nodes h x)))"

definition result_kids :: "error + heap \<Rightarrow> ref \<Rightarrow> ref list option" where
  "result_kids r x = (case r of Inl e \<Rightarrow> None | Inr h \<Rightarrow> Some (kids h x))"

text \<open>
  Two receivers (address 0) with a child A and two sources with a child A: in the first
  the child of the receiver is a leaf and the child of the source has a child B, in the
  second the child of the receiver has a child C and the child of the source is a leaf.
\<close>

definition union_heap :: heap where
  "union_heap = store [plain ''r'' ''top'' None (Some [1]),
                       plain ''A'' ''1'' (Some 0) None,
                       plain ''s'' [] None (Some [3]),
                       plain ''A'' ''2'' (Some 2) (Some [4]),
                       plain ''B'' ''x'' (Some 3) None]"

definition union_heap_leaf :: heap where
  "union_heap_leaf = store [plain ''r'' ''top'' None (Some [1]),
                       plain ''A'' ''1'' (Some 0) (Some [2]),
                       plain ''C'' ''y'' (Some 1) None,
                       plain ''s'' [] None (Some [4]),
                       plain ''A'' ''2'' (Some 3) None]"

text \<open>
  A root with the children X, Y, Z inserted in this order: X and Z are leaves, the leaf
  below Y is two levels further down.
\<close>

definition flat_heap :: heap where
  "flat_heap = store [plain ''r'' [] None (Some [1, 2, 3]),
                      plain ''X'' ''x1'' (Some 0) None,
                      plain ''Y'' [] (Some 0) (Some [4]),
                      plain ''Z'' ''z1 (ms)'' (Some 0) None,
                      plain ''counters'' [] (Some 2) (Some [5]),
                      plain ''deep'' ''d-1, more'' (Some 4) None]"

text \<open>
  A tree whose root is named x: below it root / counters with two children named cpu_busy
  (the first has a child cpu_busy of its own), and y with a leaf named root.
\<close>

definition search_heap :: heap where
  "search_heap = store [plain ''x'' [] None (Some [1, 4]),
                        plain ''root'' [] (Some 0) (Some [2]),
                        plain ''counters'' [] (Some 1) (Some [3, 6]),
                        plain ''cpu_busy'' ''c1'' (Some 2) (Some [7]),
                        plain ''y'' [] (Some 0) (Some [5]),
                        plain ''root'' [] (Some 4) None,
                        plain ''cpu_busy'' ''c2'' (Some 2) None,
                        plain ''cpu_busy'' ''c3'' (Some 3) None]"

text \<open>
  A tree with padded content at the root and at a leaf and with markup content at a leaf,
  and what a call of \<^verbatim>\<open>Copy\<close> left as the content of given addresses.
\<close>

definition copy_heap :: heap where
  "copy_heap = store [plain ''r'' '' top '' None (Some [1, 2]),
                      plain ''a'' ''1'' (Some 0) (Some [3]),
                      plain ''b'' ''<x/>'' (Some 0) None,
                      plain ''c'' '' 3'' (Some 1) None]"

definition copy_contents :: "error + heap \<times> ref \<Rightarrow> ref list \<Rightarrow> (ref \<times> string list) option" where
  "copy_contents r xs =
     (case r of Inl e \<Rightarrow> None | Inr (h', clone) \<Rightarrow> Some (clone, map (\<lambda>x. Content (nodes h' x)) xs))"

text \<open>
  A base named labels with a child x of content a, and an override with a child x of
  content b.
\<close>

definition merge_heap :: heap where
  "merge_heap = store [plain ''labels'' ''t'' None (Some [1]),
                       plain ''x'' ''a'' (Some 0) None,
                       plain ''labels'' [] None (Some [3]),
                       plain ''x'' ''b'' (Some 2) None]"

text \<open>
  The same, but the child x of the base is listed under labels without a parent pointer,
  as \<^verbatim>\<open>AddChild\<close> leaves it.
\<close>

definition merge_heap_flat :: heap where
  "merge_heap_flat = store [plain ''labels'' ''t'' None (Some [1]),
                            plain ''x'' ''a'' None None,
                            plain ''labels'' [] None (Some [3]),
                            plain ''x'' ''b'' (Some 2) None]"

text \<open>The same with the parent pointers set, but the two children have no name.\<close>

definition merge_heap_anon :: heap where
  "merge_heap_anon = store [plain ''labels'' ''t'' None (Some [1]),
                            plain [] ''a'' (Some 0) None,
                            plain ''labels'' [] None (Some [3]),
                            plain [] ''b'' (Some 2) None]"

text \<open>
  A receiver with one anonymous child u, and a subtemplate with the anonymous children
  v, w, v.
\<close>

definition anon_heap :: heap where
  "anon_heap = store [plain ''r'' ''t'' None (Some [1]),
                      plain [] ''u'' (Some 0) None,
                      plain ''s'' [] None (Some [3, 4, 5]),
                      plain [] ''v'' (Some 2) None,
                      plain [] ''w'' (Some 2) None,
                      plain [] ''v'' (Some 2) None]"

text \<open>
  A receiver that holds two anonymous children v already, and a subtemplate with the
  anonymous children v, v.
\<close>

definition anon_heap_two :: heap where
  "anon_heap_two = store [plain ''r'' ''t'' None (Some [1, 2]),
                          plain [] ''v'' (Some 0) None,
                          plain [] ''v'' (Some 0) None,
                          plain ''s'' [] None (Some [4, 5]),
                          plain [] ''v'' (Some 3) None,
                          plain [] ''v'' (Some 3) None]"

text \<open>
  A receiver with no child, and a subtemplate with the anonymous children v, v and a child
  named k of the content v.
\<close>

definition anon_heap_named :: heap where
  "anon_heap_named = store [plain ''r'' ''t'' None None,
                            plain ''s'' [] None (Some [2, 3, 4]),
                            plain [] ''v'' (Some 1) None,
                            plain [] ''v'' (Some 1) None,
                            plain ''k'' ''v'' (Some 1) None]"

definition result_count :: "error + heap \<Rightarrow> ref \<Rightarrow> string \<Rightarrow> nat option" where
  "result_count r t x = (case r of Inl e \<Rightarrow> None | Inr h \<Rightarrow> Some (count_content h t x))"

text \<open>
  Below a node named LabelAgent, a node p with an anonymous child of content x and a child
  named named of content y; the parent pointers are set.
\<close>

definition label_heap :: heap where
  "label_heap = store [plain ''LabelAgent'' [] None (Some [1]),
                       plain ''p'' [] (Some 0) (Some [2, 3]),
                       plain [] ''x'' (Some 1) None,
                       plain ''named'' ''y'' (Some 1) None]"

section \<open>Basic facts\<close>

lemma first_index_None: "(first_index P xs = None) = (\<forall>x \<in> set xs. \<not> P x)"
  by (induction xs) auto

lemma first_index_Some:
  "first_index P xs = Some i \<Longrightarrow> i < length xs \<and> P (xs ! i) \<and> (\<forall>j < i. \<not> P (xs ! j))"
proof (induction xs arbitrary: i)
  case Nil
  then show ?case by simp
next
  case (Cons x xs)
  show ?case
  proof (cases "P x")
    case True
    with Cons.prems show ?thesis by simp
  next
    case False
    with Cons.prems obtain i' where i': "first_index P xs = Some i'" "i = Suc i'"
      by auto
    from Cons.IH [OF i'(1)] False i'(2) show ?thesis
      by (auto simp: nth_Cons split: nat.splits)
  qed
qed

lemma find_None_first_index: "(find P xs = None) = (first_index P xs = None)"
  by (induction xs) auto

lemma update_nodes: "nodes (update h r f) = (nodes h)(r := f (nodes h r))"
  by (simp add: update_def)

lemma update_next_ref: "next_ref (update h r f) = next_ref h"
  by (simp add: update_def)

lemma kids_update_Children: "kids (update h n (\<lambda>v. v\<lparr>Children := Some cs\<rparr>)) n = cs"
  by (simp add: kids_def update_def)

lemma GetNameS_eq: "GetNameS h n = GetName h n"
  by (simp add: GetNameS_def GetName_def)

lemma GetChildS_eq: "GetChildS h n nm = GetChild h n nm"
  by (simp add: GetChildS_def GetChild_def GetNameS_eq)

lemmas store_simps = store_def plain_def kids_def GetName_def GetNameS_def GetXMLNameS_def
  zero_Node_def zero_Name_def

section \<open>Nil arguments of Merge and Union\<close>

text \<open>
  Claim C2. \<^verbatim>\<open>Merge\<close> returns at once for a nil subtemplate and leaves the store as it
  was, under every bound of the recursion. \<^verbatim>\<open>Union\<close> has no such guard: for a nil
  source it dereferences the nil pointer, whatever the receiver is, so it does not return
  normally.
\<close>

theorem Merge_nil_noop_Union_nil_panics:
  "Merge k n None skipOverwrite h = Inr h \<and> Union_node k n None h = Inl NilDereference"
  by simp

section \<open>PopChild\<close>

text \<open>
  Claim C10. When no child of \<open>n\<close> has the name, \<^verbatim>\<open>PopChild\<close> returns nil and the store
  is unchanged. When one has, it returns the first such child, at index \<open>i\<close>; the child
  list that is left is the old one with its last element written at \<open>i\<close> and then cut by
  one, so it is one shorter, position \<open>i\<close> holds the former last child and every other
  position keeps its child; no other node changes.
\<close>

theorem PopChild_moves_last:
  "(\<not> HasChild h n nm \<longrightarrow> PopChild h n nm = (h, None)) \<and>
   (HasChild h n nm \<longrightarrow>
      (\<exists>i < length (kids h n).
         GetName h (kids h n ! i) = nm \<and>
         (\<forall>j < i. GetName h (kids h n ! j) \<noteq> nm) \<and>
         snd (PopChild h n nm) = Some (kids h n ! i) \<and>
         kids (fst (PopChild h n nm)) n = butlast ((kids h n)[i := last (kids h n)]) \<and>
         length (kids (fst (PopChild h n nm)) n) = length (kids h n) - 1 \<and>
         (\<forall>j < length (kids h n) - 1.
            kids (fst (PopChild h n nm)) n ! j = (if j = i then last (kids h n) else kids h n ! j)) \<and>
         (\<forall>r. r \<noteq> n \<longrightarrow> nodes (fst (PopChild h n nm)) r = nodes h r)))"
proof (intro conjI impI)
  assume "\<not> HasChild h n nm"
  then have "first_index (\<lambda>child. GetName h child = nm) (kids h n) = None"
    by (simp add: HasChild_def GetChild_def find_None_first_index)
  then show "PopChild h n nm = (h, None)"
    by (simp add: PopChild_def)
next
  let ?cs = "kids h n"
  assume "HasChild h n nm"
  then obtain i where i: "first_index (\<lambda>child. GetName h child = nm) ?cs = Some i"
    by (auto simp: HasChild_def GetChild_def find_None_first_index)
  from first_index_Some [OF i]
  have lt: "i < length ?cs" and hit: "GetName h (?cs ! i) = nm"
    and before: "\<forall>j < i. GetName h (?cs ! j) \<noteq> nm"
    by auto
  from lt have ne: "?cs \<noteq> []" by auto
  then have lastcs: "?cs ! (length ?cs - 1) = last ?cs"
    by (simp add: last_conv_nth)
  have res: "PopChild h n nm =
      (update h n (\<lambda>v. v\<lparr>Children := Some (butlast (?cs[i := last ?cs]))\<rparr>), Some (?cs ! i))"
    using i lastcs by (simp add: PopChild_def Let_def)
  have k: "kids (fst (PopChild h n nm)) n = butlast (?cs[i := last ?cs])"
    by (simp add: res kids_update_Children)
  have nth: "\<forall>j < length ?cs - 1.
      kids (fst (PopChild h n nm)) n ! j = (if j = i then last ?cs else ?cs ! j)"
    using lt by (auto simp: k nth_butlast)
  have frame: "\<forall>r. r \<noteq> n \<longrightarrow> nodes (fst (PopChild h n nm)) r = nodes h r"
    by (simp add: res update_nodes)
  show "\<exists>i < length ?cs.
         GetName h (?cs ! i) = nm \<and>
         (\<forall>j < i. GetName h (?cs ! j) \<noteq> nm) \<and>
         snd (PopChild h n nm) = Some (?cs ! i) \<and>
         kids (fst (PopChild h n nm)) n = butlast (?cs[i := last ?cs]) \<and>
         length (kids (fst (PopChild h n nm)) n) = length ?cs - 1 \<and>
         (\<forall>j < length ?cs - 1.
            kids (fst (PopChild h n nm)) n ! j = (if j = i then last ?cs else ?cs ! j)) \<and>
         (\<forall>r. r \<noteq> n \<longrightarrow> nodes (fst (PopChild h n nm)) r = nodes h r)"
    using lt hit before k nth frame by (intro exI [of _ i]) (simp add: res)
qed

text \<open>
  Popping a from the children a, b, c, d leaves d, b, c: d now stands before b and c,
  which it followed. Popping a name that no child has changes nothing.
\<close>

theorem PopChild_moves_last_witness:
  "HasChild pop_heap 0 ''a'' \<and> snd (PopChild pop_heap 0 ''a'') = Some 1 \<and>
   kids (fst (PopChild pop_heap 0 ''a'')) 0 = [4, 2, 3] \<and>
   \<not> HasChild pop_heap 0 ''z'' \<and> PopChild pop_heap 0 ''z'' = (pop_heap, None)"
proof -
  have a: "HasChild pop_heap 0 ''a''"
    by (simp add: pop_heap_def HasChild_def GetChild_def store_simps)
  have z: "\<not> HasChild pop_heap 0 ''z''"
    by (simp add: pop_heap_def HasChild_def GetChild_def store_simps)
  have ks: "kids pop_heap 0 = [1, 2, 3, 4]"
    by (simp add: pop_heap_def store_simps)
  have n1: "GetName pop_heap (Suc 0) = ''a''"
    by (simp add: pop_heap_def store_simps)
  from PopChild_moves_last [of pop_heap 0 "''a''"] a
  obtain i where i: "i < length (kids pop_heap 0)"
      "\<forall>j < i. GetName pop_heap (kids pop_heap 0 ! j) \<noteq> ''a''"
      "snd (PopChild pop_heap 0 ''a'') = Some (kids pop_heap 0 ! i)"
      "kids (fst (PopChild pop_heap 0 ''a'')) 0 =
         butlast ((kids pop_heap 0)[i := last (kids pop_heap 0)])"
    by blast
  have "i = 0"
  proof (rule ccontr)
    assume "i \<noteq> 0"
    then have "0 < i" by simp
    with i(2) have "GetName pop_heap (kids pop_heap 0 ! 0) \<noteq> ''a''" by blast
    then show False using n1 by (simp add: ks)
  qed
  with i(3,4) have "snd (PopChild pop_heap 0 ''a'') = Some 1"
      "kids (fst (PopChild pop_heap 0 ''a'')) 0 = [4, 2, 3]"
    by (simp_all add: ks)
  moreover from PopChild_moves_last [of pop_heap 0 "''z''"] z
  have "PopChild pop_heap 0 ''z'' = (pop_heap, None)" by blast
  ultimately show ?thesis using a z by simp
qed

section \<open>Effective and raw content\<close>

lemma spaces_append: "spaces a \<Longrightarrow> spaces b \<Longrightarrow> spaces (a @ b)"
  by (induction rule: spaces.induct) (auto intro: spaces.intros)

lemma firstSpace_unit: "firstSpace s \<noteq> 0 \<Longrightarrow> spaces (take (firstSpace s) s)"
proof (cases s)
  case Nil
  then show ?thesis by (simp add: spaces_Nil)
next
  case (Cons c cs)
  assume nz: "firstSpace s \<noteq> 0"
  show ?thesis
  proof (cases "asciiSpace c")
    case True
    then have "firstSpace s = 1" using Cons by (simp add: firstSpace_def)
    then show ?thesis using Cons True by (simp add: spaces_ascii spaces_Nil)
  next
    case False
    with nz Cons obtain u where u: "find (\<lambda>u. take (length u) s = u) unicodeSpaces = Some u"
      by (auto simp: firstSpace_def split: option.splits)
    then have "u \<in> set unicodeSpaces" "take (length u) s = u"
      by (auto simp: find_Some_iff)
    moreover have "firstSpace s = length u" using u Cons False by (simp add: firstSpace_def)
    ultimately show ?thesis using spaces_unicode [of u "[]"] by (simp add: spaces_Nil)
  qed
qed

lemma lastSpace_unit: "lastSpace s \<noteq> 0 \<Longrightarrow> spaces (drop (length s - lastSpace s) s)"
proof (cases s rule: rev_cases)
  case Nil
  then show ?thesis by (simp add: spaces_Nil)
next
  case (snoc cs c)
  assume nz: "lastSpace s \<noteq> 0"
  show ?thesis
  proof (cases "asciiSpace c")
    case True
    then have "lastSpace s = 1" using snoc by (simp add: lastSpace_def)
    then show ?thesis using snoc True by (simp add: spaces_ascii spaces_Nil)
  next
    case False
    with nz snoc obtain u where u: "find (\<lambda>u. drop (length s - length u) s = u) unicodeSpaces = Some u"
      by (auto simp: lastSpace_def split: option.splits)
    then have "u \<in> set unicodeSpaces" "drop (length s - length u) s = u"
      by (auto simp: find_Some_iff)
    moreover have "lastSpace s = length u" using u snoc False by (simp add: lastSpace_def)
    ultimately show ?thesis using spaces_unicode [of u "[]"] by (simp add: spaces_Nil)
  qed
qed

lemma TrimLeft_split: "\<exists>pre. s = pre @ TrimLeft s \<and> spaces pre"
proof (induction s rule: TrimLeft.induct)
  case (1 s)
  show ?case
  proof (cases "firstSpace s = 0")
    case True
    then have "TrimLeft s = s" by (simp add: TrimLeft.simps)
    then show ?thesis using spaces_Nil by auto
  next
    case False
    from 1 [OF False] obtain pre where pre:
      "drop (firstSpace s) s = pre @ TrimLeft (drop (firstSpace s) s)" "spaces pre"
      by blast
    have eq: "TrimLeft s = TrimLeft (drop (firstSpace s) s)"
      using False by (subst TrimLeft.simps) simp
    have "s = take (firstSpace s) s @ drop (firstSpace s) s" by simp
    then have "s = (take (firstSpace s) s @ pre) @ TrimLeft s"
      using pre(1) eq by (metis append.assoc)
    moreover have "spaces (take (firstSpace s) s @ pre)"
      using firstSpace_unit [OF False] pre(2) by (rule spaces_append)
    ultimately show ?thesis by blast
  qed
qed

lemma TrimRight_split: "\<exists>suf. s = TrimRight s @ suf \<and> spaces suf"
proof (induction s rule: TrimRight.induct)
  case (1 s)
  show ?case
  proof (cases "lastSpace s = 0")
    case True
    then have "TrimRight s = s" by (simp add: TrimRight.simps)
    then show ?thesis using spaces_Nil by auto
  next
    case False
    let ?t = "take (length s - lastSpace s) s"
    from 1 [OF False] obtain suf where suf: "?t = TrimRight ?t @ suf" "spaces suf"
      by blast
    have eq: "TrimRight s = TrimRight ?t"
      using False by (subst TrimRight.simps) simp
    have "s = ?t @ drop (length s - lastSpace s) s" by simp
    then have "s = TrimRight s @ (suf @ drop (length s - lastSpace s) s)"
      using suf(1) eq by (metis append.assoc)
    moreover have "spaces (suf @ drop (length s - lastSpace s) s)"
      using suf(2) lastSpace_unit [OF False] by (rule spaces_append)
    ultimately show ?thesis by blast
  qed
qed

lemma firstSpace_TrimLeft: "firstSpace (TrimLeft s) = 0"
  by (induction s rule: TrimLeft.induct) (subst TrimLeft.simps, simp)

lemma lastSpace_TrimRight: "lastSpace (TrimRight s) = 0"
  by (induction s rule: TrimRight.induct) (subst TrimRight.simps, simp)

lemma unicodeSpaces_nonempty: "u \<in> set unicodeSpaces \<Longrightarrow> u \<noteq> []"
  by (auto simp: unicodeSpaces_def)

lemma find_SomeD: "find P xs = Some x \<Longrightarrow> x \<in> set xs \<and> P x"
  by (auto simp: find_Some_iff)

lemma firstSpace_0_iff:
  "(firstSpace s = 0) =
   (s = [] \<or> (\<not> asciiSpace (hd s) \<and> (\<forall>u \<in> set unicodeSpaces. take (length u) s \<noteq> u)))"
proof (cases s)
  case Nil
  then show ?thesis by (simp add: firstSpace_def)
next
  case (Cons c cs)
  show ?thesis
  proof (cases "find (\<lambda>u. take (length u) s = u) unicodeSpaces")
    case None
    then have "\<forall>u \<in> set unicodeSpaces. take (length u) s \<noteq> u"
      by (simp add: find_None_iff)
    moreover have "firstSpace s = (if asciiSpace c then 1 else 0)"
      unfolding firstSpace_def using None by (simp add: Cons)
    ultimately show ?thesis using Cons by simp
  next
    case (Some u)
    from find_SomeD [OF Some] have u: "u \<in> set unicodeSpaces" "take (length u) s = u"
      by simp_all
    have "firstSpace s = (if asciiSpace c then 1 else length u)"
      unfolding firstSpace_def using Some by (simp add: Cons)
    then have "firstSpace s \<noteq> 0" using unicodeSpaces_nonempty [OF u(1)] by simp
    then show ?thesis using u Cons by auto
  qed
qed

lemma firstSpace_take: "firstSpace s = 0 \<Longrightarrow> firstSpace (take m s) = 0"
proof -
  assume z: "firstSpace s = 0"
  show ?thesis
  proof (cases "take m s = []")
    case True
    then show ?thesis by (simp add: firstSpace_0_iff)
  next
    case False
    then have ne: "s \<noteq> []" and m: "0 < m" by auto
    then have hd: "hd (take m s) = hd s" by (cases s) (auto simp: take_Cons split: nat.splits)
    have "\<forall>u \<in> set unicodeSpaces. take (length u) (take m s) \<noteq> u"
    proof
      fix u assume u: "u \<in> set unicodeSpaces"
      show "take (length u) (take m s) \<noteq> u"
      proof
        assume e: "take (length u) (take m s) = u"
        then have "length (take (length u) (take m s)) = length u" by simp
        then have "length u \<le> m" by simp
        then have "take (length u) (take m s) = take (length u) s" by (simp add: min_def)
        with e have "take (length u) s = u" by simp
        with z ne u show False by (simp add: firstSpace_0_iff)
      qed
    qed
    with z ne hd False show ?thesis by (simp add: firstSpace_0_iff)
  qed
qed

lemma TrimRight_take: "\<exists>j. TrimRight s = take j s"
proof (induction s rule: TrimRight.induct)
  case (1 s)
  show ?case
  proof (cases "lastSpace s = 0")
    case True
    then have "TrimRight s = take (length s) s" by (simp add: TrimRight.simps)
    then show ?thesis by blast
  next
    case False
    from 1 [OF False] obtain j where
      "TrimRight (take (length s - lastSpace s) s) = take j (take (length s - lastSpace s) s)"
      by blast
    moreover have "TrimRight s = TrimRight (take (length s - lastSpace s) s)"
      using False by (subst TrimRight.simps) simp
    ultimately have "TrimRight s = take (min j (length s - lastSpace s)) s" by simp
    then show ?thesis by blast
  qed
qed

lemma TrimSpace_ends: "firstSpace (TrimSpace s) = 0 \<and> lastSpace (TrimSpace s) = 0"
proof -
  obtain j where "TrimRight (TrimLeft s) = take j (TrimLeft s)"
    using TrimRight_take by blast
  then have "firstSpace (TrimRight (TrimLeft s)) = 0"
    by (simp add: firstSpace_take firstSpace_TrimLeft)
  then show ?thesis
    by (simp add: TrimSpace_def lastSpace_TrimRight)
qed

lemma TrimSpace_split: "\<exists>pre suf. s = pre @ TrimSpace s @ suf \<and> spaces pre \<and> spaces suf"
proof -
  obtain pre where pre: "s = pre @ TrimLeft s" "spaces pre" using TrimLeft_split by blast
  obtain suf where suf: "TrimLeft s = TrimRight (TrimLeft s) @ suf" "spaces suf"
    using TrimRight_split by blast
  have "s = pre @ TrimSpace s @ suf" using pre(1) suf(1) by (simp add: TrimSpace_def)
  then show ?thesis using pre(2) suf(2) by blast
qed

lemma utf8_white_space:
  "map utf8 white_space =
     map (map of_char) ([[CHR 0x09], [CHR 0x0A], [CHR 0x0B], [CHR 0x0C], [CHR 0x0D], [CHR 0x20]] @ unicodeSpaces)"
  by (simp add: white_space_def utf8_def unicodeSpaces_def upt_rec)

lemma of_char_inj: "inj (of_char :: char \<Rightarrow> nat)"
  by (rule inj_on_inverseI [where g = char_of]) simp

lemma white_space_bytes_iff:
  "white_space_bytes w = ((\<exists>c. w = [c] \<and> asciiSpace c) \<or> w \<in> set unicodeSpaces)"
proof -
  let ?L = "[[CHR 0x09], [CHR 0x0A], [CHR 0x0B], [CHR 0x0C], [CHR 0x0D], [CHR 0x20]] @ unicodeSpaces"
  have "inj (map (of_char :: char \<Rightarrow> nat))" using of_char_inj by simp
  then have "(map of_char w \<in> map (of_char :: char \<Rightarrow> nat) ` set ?L) = (w \<in> set ?L)"
    by (rule inj_image_mem_iff)
  then have "white_space_bytes w = (w \<in> set ?L)"
    by (simp only: white_space_bytes_def utf8_white_space List.member_iff set_map)
  also have "\<dots> = ((\<exists>c. w = [c] \<and> asciiSpace c) \<or> w \<in> set unicodeSpaces)"
    by (auto simp: asciiSpace_def)
  finally show ?thesis .
qed

lemma white_space_bytes_nonempty: "white_space_bytes w \<Longrightarrow> w \<noteq> []"
  using unicodeSpaces_nonempty [of w] by (auto simp: white_space_bytes_iff)

lemma spaces_words: "spaces s \<Longrightarrow> \<exists>ws. s = concat ws \<and> list_all white_space_bytes ws"
proof (induction rule: spaces.induct)
  case spaces_Nil
  have "[] = concat [] \<and> list_all white_space_bytes []" by simp
  then show ?case by blast
next
  case (spaces_ascii c s)
  then obtain ws where ws: "s = concat ws" "list_all white_space_bytes ws" by blast
  have "white_space_bytes [c]" using spaces_ascii(1) by (simp add: white_space_bytes_iff)
  then have "c # s = concat ([c] # ws) \<and> list_all white_space_bytes ([c] # ws)"
    using ws by simp
  then show ?case by blast
next
  case (spaces_unicode u s)
  then obtain ws where ws: "s = concat ws" "list_all white_space_bytes ws" by blast
  have "white_space_bytes u" using spaces_unicode(1) by (simp add: white_space_bytes_iff)
  then have "u @ s = concat (u # ws) \<and> list_all white_space_bytes (u # ws)"
    using ws by simp
  then show ?case by blast
qed

lemma lastSpace_0_iff:
  "(lastSpace s = 0) =
   (s = [] \<or> (\<not> asciiSpace (last s) \<and> (\<forall>u \<in> set unicodeSpaces. drop (length s - length u) s \<noteq> u)))"
proof (cases s rule: rev_cases)
  case Nil
  then show ?thesis by (simp add: lastSpace_def)
next
  case (snoc cs c)
  show ?thesis
  proof (cases "find (\<lambda>u. drop (length s - length u) s = u) unicodeSpaces")
    case None
    then have "\<forall>u \<in> set unicodeSpaces. drop (length s - length u) s \<noteq> u"
      by (simp add: find_None_iff)
    moreover have "lastSpace s = (if asciiSpace c then 1 else 0)"
      unfolding lastSpace_def using None by (simp add: snoc)
    ultimately show ?thesis using snoc by simp
  next
    case (Some u)
    from find_SomeD [OF Some] have u: "u \<in> set unicodeSpaces" "drop (length s - length u) s = u"
      by simp_all
    have "lastSpace s = (if asciiSpace c then 1 else length u)"
      unfolding lastSpace_def using Some by (simp add: snoc)
    then have "lastSpace s \<noteq> 0" using unicodeSpaces_nonempty [OF u(1)] by simp
    then show ?thesis using u snoc by auto
  qed
qed

lemma TrimSpace_no_space:
  assumes w: "white_space_bytes w"
  shows "take (length w) (TrimSpace s) \<noteq> w \<and>
         drop (length (TrimSpace s) - length w) (TrimSpace s) \<noteq> w"
proof (cases "TrimSpace s = []")
  case True
  then show ?thesis using white_space_bytes_nonempty [OF w] by auto
next
  case False
  let ?t = "TrimSpace s"
  have f: "\<not> asciiSpace (hd ?t)" "\<forall>u \<in> set unicodeSpaces. take (length u) ?t \<noteq> u"
    using TrimSpace_ends [of s] False by (simp_all add: firstSpace_0_iff)
  have l: "\<not> asciiSpace (last ?t)" "\<forall>u \<in> set unicodeSpaces. drop (length ?t - length u) ?t \<noteq> u"
    using TrimSpace_ends [of s] False by (simp_all add: lastSpace_0_iff)
  from w consider c where "w = [c]" "asciiSpace c" | "w \<in> set unicodeSpaces"
    by (auto simp: white_space_bytes_iff)
  then show ?thesis
  proof cases
    case 1
    have "take 1 ?t = [hd ?t]" using False by (cases ?t) simp_all
    moreover have "drop (length ?t - 1) ?t = [last ?t]"
      using False by (cases ?t rule: rev_cases) simp_all
    ultimately show ?thesis using 1 f(1) l(1) by auto
  next
    case 2
    then show ?thesis using f(2) l(2) by blast
  qed
qed

lemma TrimSpace_split_words:
  "\<exists>pre suf. s = concat pre @ TrimSpace s @ concat suf \<and>
      list_all white_space_bytes pre \<and> list_all white_space_bytes suf"
proof -
  obtain a b where ab: "s = a @ TrimSpace s @ b" "spaces a" "spaces b"
    using TrimSpace_split by blast
  obtain pre where pre: "a = concat pre" "list_all white_space_bytes pre"
    using spaces_words [OF ab(2)] by blast
  obtain suf where suf: "b = concat suf" "list_all white_space_bytes suf"
    using spaces_words [OF ab(3)] by blast
  have "s = concat pre @ TrimSpace s @ concat suf" using ab(1) pre(1) suf(1) by simp
  then show ?thesis using pre(2) suf(2) by blast
qed

lemma find_first:
  "i < length xs \<Longrightarrow> P (xs ! i) \<Longrightarrow> \<forall>j < i. \<not> P (xs ! j) \<Longrightarrow> find P xs = Some (xs ! i)"
  by (auto simp: find_Some_iff)

lemma GetContent_differs:
  "(GetContent h k \<noteq> GetContentS h k) =
   (Content (nodes h k) \<noteq> TrimSpace (Content (nodes h k)) \<or>
    (TrimSpace (Content (nodes h k)) \<noteq> [] \<and> hd (TrimSpace (Content (nodes h k))) = CHR ''<''))"
proof -
  obtain a b where "Content (nodes h k) = a @ TrimSpace (Content (nodes h k)) @ b"
    using TrimSpace_split by blast
  then have "TrimSpace (Content (nodes h k)) \<noteq> [] \<Longrightarrow> Content (nodes h k) \<noteq> []"
    by (metis append_is_Nil_conv)
  then show ?thesis
    by (auto simp: GetContent_def GetContentS_def Let_def hd_conv_nth)
qed

text \<open>
  Claim C9. \<^verbatim>\<open>GetContentS\<close> returns the content field as it is. \<^verbatim>\<open>GetContent\<close> returns
  the content with the white space cut from both ends, and the empty string when that is
  empty or starts with the marker. What is cut in front and behind is a sequence of
  encoded white-space characters of Unicode, and no encoded white-space character is left
  at the start or at the end (in the terms of the model: \<open>spaces\<close>, \<open>firstSpace\<close> and
  \<open>lastSpace\<close>). \<^verbatim>\<open>GetChildContent\<close> returns what \<^verbatim>\<open>GetContent\<close> returns for the first
  child of the name, and \<^verbatim>\<open>GetChildContentS\<close> what \<^verbatim>\<open>GetContentS\<close> returns for it; both
  return the empty string when no child has the name. So the two differ exactly when the
  first child of the name has a content that the trimming changes or that starts with the
  marker once trimmed, and there are children on which they differ.
\<close>

theorem GetContent_trimmed_GetContentS_raw:
  "GetContentS h n = Content (nodes h n) \<and>
   GetContent h n =
     (if TrimSpace (Content (nodes h n)) = [] \<or> hd (TrimSpace (Content (nodes h n))) = CHR ''<''
      then [] else TrimSpace (Content (nodes h n))) \<and>
   (\<exists>pre suf. Content (nodes h n) = concat pre @ TrimSpace (Content (nodes h n)) @ concat suf \<and>
               list_all white_space_bytes pre \<and> list_all white_space_bytes suf) \<and>
   (\<forall>w. white_space_bytes w \<longrightarrow>
        take (length w) (TrimSpace (Content (nodes h n))) \<noteq> w \<and>
        drop (length (TrimSpace (Content (nodes h n))) - length w) (TrimSpace (Content (nodes h n))) \<noteq> w) \<and>
   (\<exists>pre suf. Content (nodes h n) = pre @ TrimSpace (Content (nodes h n)) @ suf \<and>
               spaces pre \<and> spaces suf) \<and>
   firstSpace (TrimSpace (Content (nodes h n))) = 0 \<and>
   lastSpace (TrimSpace (Content (nodes h n))) = 0 \<and>
   (\<forall>i < length (kids h p).
      GetName h (kids h p ! i) = nm \<and> (\<forall>j < i. GetName h (kids h p ! j) \<noteq> nm) \<longrightarrow>
        GetChildContent h p nm = GetContent h (kids h p ! i) \<and>
        GetChildContentS h p nm = GetContentS h (kids h p ! i)) \<and>
   ((\<forall>c \<in> set (kids h p). GetName h c \<noteq> nm) \<longrightarrow>
      GetChildContent h p nm = [] \<and> GetChildContentS h p nm = []) \<and>
   ((GetChildContent h p nm \<noteq> GetChildContentS h p nm) =
      (\<exists>i < length (kids h p).
         GetName h (kids h p ! i) = nm \<and> (\<forall>j < i. GetName h (kids h p ! j) \<noteq> nm) \<and>
         (Content (nodes h (kids h p ! i)) \<noteq> TrimSpace (Content (nodes h (kids h p ! i))) \<or>
          (TrimSpace (Content (nodes h (kids h p ! i))) \<noteq> [] \<and>
           hd (TrimSpace (Content (nodes h (kids h p ! i)))) = CHR ''<'')))) \<and>
   (\<exists>h' n' nm'. GetChildContent h' n' nm' \<noteq> GetChildContentS h' n' nm')"
proof -
  have raw: "GetContentS h n = Content (nodes h n)"
    by (simp add: GetContentS_def)
  have eff: "GetContent h n =
     (if TrimSpace (Content (nodes h n)) = [] \<or> hd (TrimSpace (Content (nodes h n))) = CHR ''<''
      then [] else TrimSpace (Content (nodes h n)))"
    by (auto simp: GetContent_def Let_def hd_conv_nth)
  have ends: "\<forall>w. white_space_bytes w \<longrightarrow>
        take (length w) (TrimSpace (Content (nodes h n))) \<noteq> w \<and>
        drop (length (TrimSpace (Content (nodes h n))) - length w) (TrimSpace (Content (nodes h n))) \<noteq> w"
    using TrimSpace_no_space by blast
  have hit: "GetChildContent h p nm = GetContent h (kids h p ! i) \<and>
        GetChildContentS h p nm = GetContentS h (kids h p ! i)"
    if "i < length (kids h p)" "GetName h (kids h p ! i) = nm"
       "\<forall>j < i. GetName h (kids h p ! j) \<noteq> nm" for i
  proof -
    have "GetChild h p nm = Some (kids h p ! i)"
      unfolding GetChild_def using that by (intro find_first) simp_all
    then show ?thesis by (simp add: GetChildContent_def GetChildContentS_def GetChildS_eq)
  qed
  have miss: "GetChildContent h p nm = [] \<and> GetChildContentS h p nm = []"
    if "\<forall>c \<in> set (kids h p). GetName h c \<noteq> nm"
  proof -
    have "GetChild h p nm = None" unfolding GetChild_def using that by (simp add: find_None_iff)
    then show ?thesis by (simp add: GetChildContent_def GetChildContentS_def GetChildS_eq)
  qed
  have differ: "(GetChildContent h p nm \<noteq> GetChildContentS h p nm) =
      (\<exists>i < length (kids h p).
         GetName h (kids h p ! i) = nm \<and> (\<forall>j < i. GetName h (kids h p ! j) \<noteq> nm) \<and>
         (Content (nodes h (kids h p ! i)) \<noteq> TrimSpace (Content (nodes h (kids h p ! i))) \<or>
          (TrimSpace (Content (nodes h (kids h p ! i))) \<noteq> [] \<and>
           hd (TrimSpace (Content (nodes h (kids h p ! i)))) = CHR ''<'')))"
  proof (cases "GetChild h p nm")
    case None
    then have "\<forall>c \<in> set (kids h p). GetName h c \<noteq> nm"
      by (simp add: GetChild_def find_None_iff)
    then have "\<not> (\<exists>i < length (kids h p). GetName h (kids h p ! i) = nm)" by auto
    moreover have "GetChildContent h p nm = GetChildContentS h p nm"
      using None by (simp add: GetChildContent_def GetChildContentS_def GetChildS_eq)
    ultimately show ?thesis by blast
  next
    case (Some k)
    then obtain i where i: "i < length (kids h p)" "GetName h (kids h p ! i) = nm"
        "kids h p ! i = k" "\<forall>j < i. GetName h (kids h p ! j) \<noteq> nm"
      by (auto simp: GetChild_def find_Some_iff)
    have uniq: "i' = i" if "i' < length (kids h p)" "GetName h (kids h p ! i') = nm"
        "\<forall>j < i'. GetName h (kids h p ! j) \<noteq> nm" for i'
      using that i by (metis linorder_neqE_nat)
    have "(GetChildContent h p nm \<noteq> GetChildContentS h p nm) = (GetContent h k \<noteq> GetContentS h k)"
      using Some by (simp add: GetChildContent_def GetChildContentS_def GetChildS_eq)
    also have "\<dots> = (Content (nodes h k) \<noteq> TrimSpace (Content (nodes h k)) \<or>
        (TrimSpace (Content (nodes h k)) \<noteq> [] \<and> hd (TrimSpace (Content (nodes h k))) = CHR ''<''))"
      by (rule GetContent_differs)
    finally show ?thesis using i uniq by blast
  qed
  have "GetChildContent content_heap 0 ''x'' = ''ab''" by code_simp
  moreover have "GetChildContentS content_heap 0 ''x'' = ''  ab  ''" by code_simp
  ultimately have "GetChildContent content_heap 0 ''x'' \<noteq> GetChildContentS content_heap 0 ''x''"
    by simp
  then have diff: "\<exists>h' n' nm'. GetChildContent h' n' nm' \<noteq> GetChildContentS h' n' nm'"
    by blast
  show ?thesis
    using raw eff TrimSpace_split_words [of "Content (nodes h n)"] ends
      TrimSpace_split [of "Content (nodes h n)"]
      TrimSpace_ends [of "Content (nodes h n)"] hit miss differ diff
    by blast
qed

text \<open>
  The padded child and the markup child of the first example store, read directly and
  through their parent, and a name no child has; then the children padded with white space
  outside ASCII. The lone byte A0 is no white space: only its encoding C2 A0 is.
\<close>

theorem GetContent_trimmed_GetContentS_raw_witness:
  "GetContentS content_heap 1 = ''  ab  '' \<and> GetContent content_heap 1 = ''ab'' \<and>
   GetContentS content_heap 2 = '' <b>x</b> '' \<and> GetContent content_heap 2 = [] \<and>
   kids content_heap 0 = [1, 2] \<and>
   GetName content_heap 1 = ''x'' \<and> GetName content_heap 2 = ''y'' \<and>
   GetChildContent content_heap 0 ''x'' = ''ab'' \<and>
   GetChildContentS content_heap 0 ''x'' = ''  ab  '' \<and>
   GetChildContent content_heap 0 ''y'' = [] \<and>
   GetChildContentS content_heap 0 ''y'' = '' <b>x</b> '' \<and>
   GetChildContent content_heap 0 ''z'' = [] \<and> GetChildContentS content_heap 0 ''z'' = [] \<and>
   white_space_bytes [CHR 0xE3, CHR 0x80, CHR 0x80] \<and> white_space_bytes [CHR 0xC2, CHR 0xA0] \<and>
   white_space_bytes [CHR 0x0A] \<and>
   GetContentS space_heap 1 =
     concat [[CHR 0xE3, CHR 0x80, CHR 0x80]] @ ''a b'' @ concat [[CHR 0xC2, CHR 0xA0], [CHR 0x0A]] \<and>
   GetContent space_heap 1 = ''a b'' \<and>
   kids space_heap 0 = [1, 2, 3] \<and>
   GetName space_heap 1 = ''x'' \<and> GetName space_heap 2 = ''x'' \<and>
   GetChildContent space_heap 0 ''x'' = ''a b'' \<and>
   GetChildContentS space_heap 0 ''x'' = GetContentS space_heap 1 \<and>
   GetContentS space_heap 3 = [CHR 0xC2, CHR 0x85, CHR 0xA0, CHR 0x20] \<and>
   GetContent space_heap 3 = [CHR 0xA0]"
proof -
  note th = GetContent_trimmed_GetContentS_raw
  have c1: "Content (nodes content_heap (Suc 0)) = ''  ab  ''"
    and c2: "Content (nodes content_heap 2) = '' <b>x</b> ''"
    by (simp_all add: content_heap_def store_def plain_def)
  have t1: "TrimSpace ''  ab  '' = ''ab''" by code_simp
  have t2: "TrimSpace '' <b>x</b> '' = ''<b>x</b>''" by code_simp
  have k: "kids content_heap 0 = [Suc 0, 2]" by code_simp
  have nx: "GetName content_heap (Suc 0) = ''x''" and ny: "GetName content_heap 2 = ''y''"
    by code_simp+
  from th [of content_heap 1 0 "''x''"]
  have g1: "GetContentS content_heap (Suc 0) = ''  ab  '' \<and> GetContent content_heap (Suc 0) = ''ab''"
    by (simp add: c1 t1)
  from th [of content_heap 2 0 "''y''"]
  have g2: "GetContentS content_heap 2 = '' <b>x</b> '' \<and> GetContent content_heap 2 = []"
    by (simp add: c2 t2)
  from th [of content_heap 0 0 "''x''"]
  have "\<forall>i < length (kids content_heap 0).
      GetName content_heap (kids content_heap 0 ! i) = ''x'' \<and>
      (\<forall>j < i. GetName content_heap (kids content_heap 0 ! j) \<noteq> ''x'') \<longrightarrow>
        GetChildContent content_heap 0 ''x'' = GetContent content_heap (kids content_heap 0 ! i) \<and>
        GetChildContentS content_heap 0 ''x'' = GetContentS content_heap (kids content_heap 0 ! i)"
    by blast
  from this [rule_format, of 0]
  have x: "GetChildContent content_heap 0 ''x'' = ''ab'' \<and>
           GetChildContentS content_heap 0 ''x'' = ''  ab  ''"
    using k nx g1 by simp
  from th [of content_heap 0 0 "''y''"]
  have "\<forall>i < length (kids content_heap 0).
      GetName content_heap (kids content_heap 0 ! i) = ''y'' \<and>
      (\<forall>j < i. GetName content_heap (kids content_heap 0 ! j) \<noteq> ''y'') \<longrightarrow>
        GetChildContent content_heap 0 ''y'' = GetContent content_heap (kids content_heap 0 ! i) \<and>
        GetChildContentS content_heap 0 ''y'' = GetContentS content_heap (kids content_heap 0 ! i)"
    by blast
  from this [rule_format, of 1]
  have y: "GetChildContent content_heap 0 ''y'' = [] \<and>
           GetChildContentS content_heap 0 ''y'' = '' <b>x</b> ''"
    using k nx ny g2 by simp
  from th [of content_heap 0 0 "''z''"]
  have "(\<forall>c \<in> set (kids content_heap 0). GetName content_heap c \<noteq> ''z'') \<longrightarrow>
      GetChildContent content_heap 0 ''z'' = [] \<and> GetChildContentS content_heap 0 ''z'' = []"
    by blast
  then have z: "GetChildContent content_heap 0 ''z'' = [] \<and> GetChildContentS content_heap 0 ''z'' = []"
    using k nx ny by simp
  have w: "white_space_bytes [CHR 0xE3, CHR 0x80, CHR 0x80] \<and> white_space_bytes [CHR 0xC2, CHR 0xA0] \<and>
      white_space_bytes [CHR 0x0A]"
    by (simp add: white_space_bytes_iff asciiSpace_def unicodeSpaces_def)
  have s1: "Content (nodes space_heap (Suc 0)) =
      [CHR 0xE3, CHR 0x80, CHR 0x80] @ ''a b'' @ [CHR 0xC2, CHR 0xA0, CHR 0x0A]"
    and s3: "Content (nodes space_heap 3) = [CHR 0xC2, CHR 0x85, CHR 0xA0, CHR 0x20]"
    by (simp_all add: space_heap_def store_def plain_def)
  have u1: "TrimSpace ([CHR 0xE3, CHR 0x80, CHR 0x80] @ ''a b'' @ [CHR 0xC2, CHR 0xA0, CHR 0x0A]) = ''a b''"
    by code_simp
  have u3: "TrimSpace [CHR 0xC2, CHR 0x85, CHR 0xA0, CHR 0x20] = [CHR 0xA0]" by code_simp
  have ks: "kids space_heap 0 = [Suc 0, 2, 3]" by code_simp
  have sx: "GetName space_heap (Suc 0) = ''x''" and sx2: "GetName space_heap 2 = ''x''"
    by code_simp+
  from th [of space_heap 1 0 "''x''"]
  have g3: "GetContentS space_heap (Suc 0) =
      [CHR 0xE3, CHR 0x80, CHR 0x80] @ ''a b'' @ [CHR 0xC2, CHR 0xA0, CHR 0x0A] \<and>
      GetContent space_heap (Suc 0) = ''a b''"
    using u1 by (simp add: s1)
  from th [of space_heap 3 0 "''x''"]
  have g4: "GetContentS space_heap 3 = [CHR 0xC2, CHR 0x85, CHR 0xA0, CHR 0x20] \<and>
      GetContent space_heap 3 = [CHR 0xA0]"
    using u3 by (simp add: s3)
  from th [of space_heap 0 0 "''x''"]
  have "\<forall>i < length (kids space_heap 0).
      GetName space_heap (kids space_heap 0 ! i) = ''x'' \<and>
      (\<forall>j < i. GetName space_heap (kids space_heap 0 ! j) \<noteq> ''x'') \<longrightarrow>
        GetChildContent space_heap 0 ''x'' = GetContent space_heap (kids space_heap 0 ! i) \<and>
        GetChildContentS space_heap 0 ''x'' = GetContentS space_heap (kids space_heap 0 ! i)"
    by blast
  from this [rule_format, of 0]
  have sxc: "GetChildContent space_heap 0 ''x'' = ''a b'' \<and>
           GetChildContentS space_heap 0 ''x'' = GetContentS space_heap (Suc 0)"
    using ks sx g3 by simp
  show ?thesis
    using g1 g2 k nx ny x y z w g3 ks sx sx2 sxc g4 by simp
qed

section \<open>Union: a child of the source meets a child of the same name\<close>

lemma Union_loop_append:
  "Union_loop k n (xs @ ys) h =
     (case Union_loop k n xs h of Inl e \<Rightarrow> Inl e | Inr h' \<Rightarrow> Union_loop k n ys h')"
proof (induction xs arbitrary: h)
  case Nil
  then show ?case by simp
next
  case (Cons x xs)
  show ?case
    by (simp add: Cons.IH split: option.splits sum.splits)
qed

text \<open>
  Claim C1, as the code has it. Let the loop of \<^verbatim>\<open>Union\<close> reach the child \<open>c\<close> of the
  source in the store \<open>h2\<close>, and let the receiver have a child of the name of \<open>c\<close>, the
  first of which is \<open>mine\<close>. When the child list of \<open>c\<close>, the child of the source, is not
  nil, \<^verbatim>\<open>Union\<close> recurses into \<open>mine\<close> with \<open>c\<close>; otherwise the content of \<open>c\<close> is
  written over the content of \<open>mine\<close> and nothing else changes. Whether \<open>mine\<close> has children
  plays no part.
\<close>

theorem Union_collision:
  assumes h1: "h1 = (if length (GetContent h n) = 0 then SetContent h n (GetContent h source) else h)"
    and cs: "kids h1 source = pre @ c # rest"
    and reach: "Union_loop k n pre h1 = Inr h2"
    and mine: "GetChild h2 n (GetName h2 c) = Some mine"
  shows "Union_node (Suc k) n (Some source) h =
     (if GetChildren h2 c \<noteq> None
      then (case Union_node k mine (Some c) h2 of
              Inl e \<Rightarrow> Inl e
            | Inr h3 \<Rightarrow> Union_loop k n rest h3)
      else Union_loop k n rest (update h2 mine (\<lambda>v. v\<lparr>Content := Content (nodes h2 c)\<rparr>)))"
proof -
  have "Union_node (Suc k) n (Some source) h = Union_loop k n (pre @ c # rest) h1"
    using h1 cs by (simp add: Let_def)
  also have "\<dots> = Union_loop k n (c # rest) h2"
    using reach by (simp add: Union_loop_append)
  also have "\<dots> =
     (if GetChildren h2 c \<noteq> None
      then (case Union_node k mine (Some c) h2 of
              Inl e \<Rightarrow> Inl e
            | Inr h3 \<Rightarrow> Union_loop k n rest h3)
      else Union_loop k n rest (update h2 mine (\<lambda>v. v\<lparr>Content := Content (nodes h2 c)\<rparr>)))"
    using mine
    by (simp add: HasChild_def SetChildContentS_def GetChildS_eq GetNameS_eq
        SetContentS_def SetContent_def GetContentS_def)
  finally show ?thesis .
qed

text \<open>
  The claim as stated fails on the first example store: the child of the receiver is a
  leaf, so its content should become that of the child of the source, but \<^verbatim>\<open>Union\<close>
  recurses, keeps the content and adopts B.
\<close>

theorem Union_leaf_receiver_counterexample:
  "GetChild union_heap 0 (GetName union_heap 3) = Some 1 \<and>
   GetChildren union_heap 1 = None \<and>
   GetContentS union_heap 1 = ''1'' \<and>
   GetContentS union_heap 3 = ''2'' \<and>
   result_content (Union_node 2 0 (Some 2) union_heap) 1 = Some ''1'' \<and>
   result_kids (Union_node 2 0 (Some 2) union_heap) 1 = Some [4]"
  by code_simp

text \<open>Both branches, on the two example stores.\<close>

theorem Union_collision_witness:
  "kids union_heap 2 = [] @ 3 # [] \<and>
   GetChild union_heap 0 (GetName union_heap 3) = Some 1 \<and>
   GetChildren union_heap 3 \<noteq> None \<and>
   Union_node (Suc 1) 0 (Some 2) union_heap =
     (case Union_node 1 1 (Some 3) union_heap of Inl e \<Rightarrow> Inl e | Inr h3 \<Rightarrow> Union_loop 1 0 [] h3) \<and>
   kids union_heap_leaf 3 = [] @ 4 # [] \<and>
   GetChild union_heap_leaf 0 (GetName union_heap_leaf 4) = Some 1 \<and>
   GetChildren union_heap_leaf 4 = None \<and>
   Union_node (Suc 1) 0 (Some 3) union_heap_leaf =
     Union_loop 1 0 [] (update union_heap_leaf 1 (\<lambda>v. v\<lparr>Content := Content (nodes union_heap_leaf 4)\<rparr>))"
proof -
  have a0: "length (GetContent union_heap 0) \<noteq> 0" by code_simp
  have a1: "kids union_heap 2 = [] @ 3 # []" by code_simp
  have a2: "Union_loop 1 0 [] union_heap = Inr union_heap" by simp
  have a3: "GetChild union_heap 0 (GetName union_heap 3) = Some 1" by code_simp
  have a4: "GetChildren union_heap 3 \<noteq> None" by code_simp
  have a: "Union_node (Suc 1) 0 (Some 2) union_heap =
     (case Union_node 1 1 (Some 3) union_heap of Inl e \<Rightarrow> Inl e | Inr h3 \<Rightarrow> Union_loop 1 0 [] h3)"
    using Union_collision [where h = union_heap and ?h1.0 = union_heap and n = 0 and source = 2
        and pre = "[]" and c = 3 and rest = "[]" and k = 1 and ?h2.0 = union_heap and mine = 1]
      a0 a1 a2 a3 a4
    by (simp del: Union_node.simps Union_loop.simps)
  have b0: "length (GetContent union_heap_leaf 0) \<noteq> 0" by code_simp
  have b1: "kids union_heap_leaf 3 = [] @ 4 # []" by code_simp
  have b2: "Union_loop 1 0 [] union_heap_leaf = Inr union_heap_leaf" by simp
  have b3: "GetChild union_heap_leaf 0 (GetName union_heap_leaf 4) = Some 1" by code_simp
  have b4: "GetChildren union_heap_leaf 4 = None" by code_simp
  have b: "Union_node (Suc 1) 0 (Some 3) union_heap_leaf =
     Union_loop 1 0 [] (update union_heap_leaf 1 (\<lambda>v. v\<lparr>Content := Content (nodes union_heap_leaf 4)\<rparr>))"
    using Union_collision [where h = union_heap_leaf and ?h1.0 = union_heap_leaf and n = 0
        and source = 3 and pre = "[]" and c = 4 and rest = "[]" and k = 1
        and ?h2.0 = union_heap_leaf and mine = 1]
      b0 b1 b2 b3 b4
    by (simp del: Union_node.simps Union_loop.simps)
  show ?thesis using a1 a3 a4 a b1 b3 b4 b by blast
qed

section \<open>FlatList keeps the order of the children\<close>

text \<open>The accumulator is only appended to: a call adds its output to the list it is given.\<close>

lemma FlatList_loop_acc:
  assumes A: "\<And>c list. FlatList k h (Some c) list prefix =
     (case FlatList k h (Some c) [] prefix of Inl e \<Rightarrow> Inl e | Inr out \<Rightarrow> Inr (list @ out))"
  shows "FlatList_loop k h cs list prefix =
     (case FlatList_loop k h cs [] prefix of Inl e \<Rightarrow> Inl e | Inr out \<Rightarrow> Inr (list @ out))"
proof (induction cs arbitrary: list)
  case Nil
  then show ?case by simp
next
  case (Cons c cs)
  show ?case
  proof (cases "FlatList k h (Some c) [] prefix")
    case (Inl e)
    then have "FlatList k h (Some c) list prefix = Inl e" by (subst A) simp
    then show ?thesis using Inl by simp
  next
    case (Inr out)
    then have a: "FlatList k h (Some c) list prefix = Inr (list @ out)" by (subst A) simp
    have "FlatList_loop k h (c # cs) list prefix = FlatList_loop k h cs (list @ out) prefix"
      using a by simp
    also have "\<dots> = (case FlatList_loop k h cs [] prefix of
                        Inl e \<Rightarrow> Inl e | Inr o2 \<Rightarrow> Inr (list @ out @ o2))"
      using Cons.IH [of "list @ out"] by (simp split: sum.splits)
    finally have l: "FlatList_loop k h (c # cs) list prefix =
        (case FlatList_loop k h cs [] prefix of Inl e \<Rightarrow> Inl e | Inr o2 \<Rightarrow> Inr (list @ out @ o2))" .
    have "FlatList_loop k h (c # cs) [] prefix = FlatList_loop k h cs out prefix"
      using Inr by simp
    also have "\<dots> = (case FlatList_loop k h cs [] prefix of
                        Inl e \<Rightarrow> Inl e | Inr o2 \<Rightarrow> Inr (out @ o2))"
      by (rule Cons.IH)
    finally have "FlatList_loop k h (c # cs) [] prefix =
        (case FlatList_loop k h cs [] prefix of Inl e \<Rightarrow> Inl e | Inr o2 \<Rightarrow> Inr (out @ o2))" .
    with l show ?thesis by (simp split: sum.splits)
  qed
qed

lemma FlatList_acc:
  "FlatList k h r list prefix =
     (case FlatList k h r [] prefix of Inl e \<Rightarrow> Inl e | Inr out \<Rightarrow> Inr (list @ out))"
proof (induction k arbitrary: r list prefix)
  case 0
  then show ?case by (cases r) simp_all
next
  case (Suc k)
  show ?case
  proof (cases r)
    case None
    then show ?thesis by simp
  next
    case (Some n)
    show ?thesis
    proof (cases "length (kids h n) = 0")
      case True
      then show ?thesis using Some by (simp add: Let_def)
    next
      case False
      have "\<And>p. FlatList_loop k h (kids h n) list p =
          (case FlatList_loop k h (kids h n) [] p of Inl e \<Rightarrow> Inl e | Inr out \<Rightarrow> Inr (list @ out))"
        by (rule FlatList_loop_acc) (rule Suc.IH)
      then show ?thesis using Some False by (simp add: Let_def)
    qed
  qed
qed

lemma FlatList_loop_concat:
  assumes "list_all2 (\<lambda>c out. FlatList k h (Some c) [] prefix = Inr out) cs outs"
  shows "FlatList_loop k h cs list prefix = Inr (list @ concat outs)"
  using assms
proof (induction cs outs arbitrary: list rule: list_all2_induct)
  case Nil
  then show ?case by simp
next
  case (Cons c cs out outs)
  have "FlatList k h (Some c) list prefix = Inr (list @ out)"
    using Cons.hyps(1) by (subst FlatList_acc) simp
  then show ?case using Cons.IH [of "list @ out"] by simp
qed

lemma FlatList_total:
  "within_depth k h n \<Longrightarrow> \<exists>out. FlatList k h (Some n) list prefix = Inr out"
proof (induction k arbitrary: n list prefix)
  case 0
  then show ?case by simp
next
  case (Suc k)
  have loop: "list_all (within_depth k h) cs \<Longrightarrow> \<exists>out. FlatList_loop k h cs l p = Inr out"
    for cs l p
  proof (induction cs arbitrary: l)
    case Nil
    then show ?case by simp
  next
    case (Cons c cs)
    then obtain o1 where "FlatList k h (Some c) l p = Inr o1"
      using Suc.IH [of c l p] by auto
    then show ?case using Cons by simp
  qed
  from Suc.prems have "list_all (within_depth k h) (kids h n)" by simp
  from loop [OF this] show ?case by (simp add: Let_def)
qed

text \<open>
  Claim C8. For a node with children, on a tree of at most \<open>k + 1\<close> levels,
  \<^verbatim>\<open>FlatList\<close> returns, and what it appends to the list is the concatenation, in the order
  of the child list, of what \<^verbatim>\<open>FlatList\<close> gives for each child alone, however deep the
  subtrees of the children are.
\<close>

theorem FlatList_children_in_order:
  assumes wd: "within_depth (Suc k) h n"
    and ne: "kids h n \<noteq> []"
    and p1: "prefix1 = (if length (GetNameS h n) > 0 \<and> GetNameS h n \<noteq> ''counters''
                        then (if prefix = [] then GetNameS h n else prefix @ '' '' @ GetNameS h n)
                        else prefix)"
  shows "\<exists>outs. list_all2 (\<lambda>c out. FlatList k h (Some c) [] prefix1 = Inr out) (kids h n) outs \<and>
                FlatList (Suc k) h (Some n) list prefix = Inr (list @ concat outs)"
proof -
  from wd have all: "list_all (within_depth k h) (kids h n)" by simp
  have "\<exists>outs. list_all2 (\<lambda>c out. FlatList k h (Some c) [] prefix1 = Inr out) cs outs"
    if "list_all (within_depth k h) cs" for cs
    using that
  proof (induction cs)
    case Nil
    then show ?case by simp
  next
    case (Cons c cs)
    then obtain outs where outs: "list_all2 (\<lambda>c out. FlatList k h (Some c) [] prefix1 = Inr out) cs outs"
      by auto
    from Cons.prems have "within_depth k h c" by simp
    from FlatList_total [OF this] obtain out where "FlatList k h (Some c) [] prefix1 = Inr out"
      by blast
    with outs have "list_all2 (\<lambda>c out. FlatList k h (Some c) [] prefix1 = Inr out) (c # cs) (out # outs)"
      by simp
    then show ?case by blast
  qed
  from this [OF all] obtain outs where
    outs: "list_all2 (\<lambda>c out. FlatList k h (Some c) [] prefix1 = Inr out) (kids h n) outs"
    by blast
  have "FlatList (Suc k) h (Some n) list prefix = FlatList_loop k h (kids h n) list prefix1"
    using ne p1 by (simp add: Let_def)
  also have "\<dots> = Inr (list @ concat outs)"
    using outs by (rule FlatList_loop_concat)
  finally show ?thesis using outs by blast
qed

text \<open>The entries of X, of the subtree of Y and of Z, in this order.\<close>

theorem FlatList_children_in_order_witness:
  "within_depth (Suc 3) flat_heap 0 \<and> kids flat_heap 0 = [1, 2, 3] \<and>
   FlatList 3 flat_heap (Some 1) [] ''r'' = Inr [''r x1''] \<and>
   FlatList 3 flat_heap (Some 2) [] ''r'' = Inr [''r Y d-1''] \<and>
   FlatList 3 flat_heap (Some 3) [] ''r'' = Inr [''r z1''] \<and>
   FlatList (Suc 3) flat_heap (Some 0) [''first''] [] = Inr [''first'', ''r x1'', ''r Y d-1'', ''r z1'']"
proof -
  have wd: "within_depth (Suc 3) flat_heap 0" by code_simp
  have ks: "kids flat_heap 0 = [1, 2, 3]" by code_simp
  have ne: "kids flat_heap 0 \<noteq> []" by (simp add: ks)
  have p1: "''r'' = (if length (GetNameS flat_heap 0) > 0 \<and> GetNameS flat_heap 0 \<noteq> ''counters''
                     then (if [] = [] then GetNameS flat_heap 0 else [] @ '' '' @ GetNameS flat_heap 0)
                     else [])"
    by code_simp
  have x: "FlatList 3 flat_heap (Some 1) [] ''r'' = Inr [''r x1'']" by code_simp
  have y: "FlatList 3 flat_heap (Some 2) [] ''r'' = Inr [''r Y d-1'']" by code_simp
  have z: "FlatList 3 flat_heap (Some 3) [] ''r'' = Inr [''r z1'']" by code_simp
  from FlatList_children_in_order [OF wd ne p1, of "[''first'']"]
  obtain outs where
    outs: "list_all2 (\<lambda>c out. FlatList 3 flat_heap (Some c) [] ''r'' = Inr out) (kids flat_heap 0) outs"
    and res: "FlatList (Suc 3) flat_heap (Some 0) [''first''] [] = Inr ([''first''] @ concat outs)"
    by blast
  from outs x y z have "outs = [[''r x1''], [''r Y d-1''], [''r z1'']]"
    by (auto simp: ks list_all2_Cons1)
  with res wd ks x y z show ?thesis by simp
qed

section \<open>SearchChildren returns the anchored matches in pre-order\<close>

lemma anchored_iff:
  "path \<noteq> [] \<Longrightarrow> anchored path names = (\<exists>q. names = q @ path \<and> hd path \<notin> set q)"
proof
  assume ne: "path \<noteq> []" and a: "anchored path names"
  have "takeWhile (\<lambda>x. x \<noteq> hd path) names @ dropWhile (\<lambda>x. x \<noteq> hd path) names = names"
    by (rule takeWhile_dropWhile_id)
  moreover have "dropWhile (\<lambda>x. x \<noteq> hd path) names = path"
    using a by (simp add: anchored_def)
  ultimately have "names = takeWhile (\<lambda>x. x \<noteq> hd path) names @ path"
    by simp
  moreover have "hd path \<notin> set (takeWhile (\<lambda>x. x \<noteq> hd path) names)"
    by (auto dest: set_takeWhileD)
  ultimately show "\<exists>q. names = q @ path \<and> hd path \<notin> set q" by blast
next
  assume ne: "path \<noteq> []" and "\<exists>q. names = q @ path \<and> hd path \<notin> set q"
  then obtain q where q: "names = q @ path" "hd path \<notin> set q" by blast
  from ne obtain a rest where p: "path = a # rest" by (cases path) auto
  have "dropWhile (\<lambda>x. x \<noteq> hd path) (q @ path) = dropWhile (\<lambda>x. x \<noteq> hd path) path"
    using q(2) by (intro dropWhile_append2) auto
  also have "\<dots> = path" using p by simp
  finally show "anchored path names" using q(1) by (simp add: anchored_def)
qed

lemma walk_names:
  "w \<in> set (walk k h c trail) \<Longrightarrow> \<exists>more. snd w = trail @ more \<and> more \<noteq> []"
proof (induction k arbitrary: c trail)
  case 0
  then show ?case by simp
next
  case (Suc k)
  from Suc.prems consider "w = (c, trail @ [GetNameS h c])"
    | d where "d \<in> set (kids h c)" "w \<in> set (walk k h d (trail @ [GetNameS h c]))"
    by auto
  then show ?case
  proof cases
    case 1
    then show ?thesis by simp
  next
    case 2
    from Suc.IH [OF 2(2)] obtain more where "snd w = (trail @ [GetNameS h c]) @ more" by blast
    then have "snd w = trail @ (GetNameS h c # more)" by simp
    then show ?thesis by blast
  qed
qed

lemma found_pruned:
  assumes cur: "dropWhile (\<lambda>x. x \<noteq> hd path) trail = cur"
    and ne: "cur \<noteq> []"
    and len: "length path \<le> length cur"
  shows "found path (concat (map (\<lambda>c. walk k h c trail) cs)) = []"
proof -
  have "\<not> anchored path (snd w)" if "w \<in> set (concat (map (\<lambda>c. walk k h c trail) cs))" for w
  proof -
    from that obtain c where "w \<in> set (walk k h c trail)" by auto
    from walk_names [OF this] obtain more where more: "snd w = trail @ more" "more \<noteq> []"
      by blast
    from cur ne have "dropWhile (\<lambda>x. x \<noteq> hd path) trail \<noteq> []" by simp
    then have "\<exists>x \<in> set trail. \<not> x \<noteq> hd path"
      by (simp only: dropWhile_eq_Nil_conv not_all bex_simps) blast
    then obtain x where x: "x \<in> set trail" "\<not> x \<noteq> hd path" by blast
    have "dropWhile (\<lambda>x. x \<noteq> hd path) (trail @ more) = cur @ more"
      using dropWhile_append1 [where P = "\<lambda>x. x \<noteq> hd path" and ys = more, OF x] cur by simp
    then have "length (dropWhile (\<lambda>x. x \<noteq> hd path) (snd w)) > length path"
      using more len by (cases more) simp_all
    then show ?thesis by (auto simp: anchored_def)
  qed
  then show ?thesis by (simp add: found_def filter_empty_conv)
qed

lemma found_append: "found path (xs @ ys) = found path xs @ found path ys"
  by (simp add: found_def)

lemma found_Cons: "found path (w # ws) = (if anchored path (snd w) then fst w # found path ws else found path ws)"
  by (simp add: found_def)

lemma newPath_anchor:
  assumes "path \<noteq> []" and "cur = dropWhile (\<lambda>x. x \<noteq> hd path) trail"
  shows "(if length cur > 0 \<or> path ! 0 = nm then cur @ [nm] else cur) =
         dropWhile (\<lambda>x. x \<noteq> hd path) (trail @ [nm])"
proof (cases "cur = []")
  case True
  then have "\<forall>x \<in> set trail. x \<noteq> hd path" using assms(2) by (simp add: dropWhile_eq_Nil_conv)
  then have "dropWhile (\<lambda>x. x \<noteq> hd path) (trail @ [nm]) = dropWhile (\<lambda>x. x \<noteq> hd path) [nm]"
    by (intro dropWhile_append2) auto
  then show ?thesis using True assms(1) by (auto simp: hd_conv_nth)
next
  case False
  then have "dropWhile (\<lambda>x. x \<noteq> hd path) trail \<noteq> []" using assms(2) by simp
  then have "\<exists>x \<in> set trail. \<not> x \<noteq> hd path"
    by (simp only: dropWhile_eq_Nil_conv not_all bex_simps) blast
  then obtain x where x: "x \<in> set trail" "\<not> x \<noteq> hd path" by blast
  have "dropWhile (\<lambda>x. x \<noteq> hd path) (trail @ [nm]) = cur @ [nm]"
    using dropWhile_append1 [where P = "\<lambda>x. x \<noteq> hd path" and ys = "[nm]", OF x] assms(2) by simp
  then show ?thesis using False by simp
qed

lemma search_loop_found:
  assumes A: "\<And>c ms. within_depth k h c \<Longrightarrow>
      search k h path c cur ms = Inr (ms @ found path (walk k h c trail))"
    and wd: "list_all (within_depth k h) cs"
  shows "search_loop k h path cs cur ms =
      Inr (ms @ found path (concat (map (\<lambda>c. walk k h c trail) cs)))"
  using wd
proof (induction cs arbitrary: ms)
  case Nil
  then show ?case by (simp add: found_def)
next
  case (Cons c cs)
  then have "search k h path c cur ms = Inr (ms @ found path (walk k h c trail))"
    by (intro A) simp
  moreover have "search_loop k h path cs cur (ms @ found path (walk k h c trail)) =
      Inr ((ms @ found path (walk k h c trail)) @ found path (concat (map (\<lambda>c. walk k h c trail) cs)))"
    using Cons by simp
  ultimately show ?case by (simp add: found_append)
qed

lemma search_found:
  assumes ne: "path \<noteq> []"
  shows "within_depth k h n \<Longrightarrow> cur = dropWhile (\<lambda>x. x \<noteq> hd path) trail \<Longrightarrow>
         search k h path n cur ms = Inr (ms @ found path (walk k h n trail))"
proof (induction k arbitrary: n cur trail ms)
  case 0
  then show ?case by simp
next
  case (Suc k)
  define nm where "nm = GetNameS h n"
  define new where "new = dropWhile (\<lambda>x. x \<noteq> hd path) (trail @ [nm])"
  define below where "below = concat (map (\<lambda>c. walk k h c (trail @ [nm])) (kids h n))"
  have new: "(if length cur > 0 \<or> path ! 0 = nm then cur @ [nm] else cur) = new"
    unfolding new_def using ne Suc.prems(2) by (rule newPath_anchor)
  have wds: "list_all (within_depth k h) (kids h n)" using Suc.prems(1) by simp
  have head: "anchored path (trail @ [nm]) = (new = path)"
    by (simp only: anchored_def new_def)
  have wk: "walk (Suc k) h n trail = (n, trail @ [nm]) # below"
    by (simp add: nm_def below_def)
  have unfold: "search (Suc k) h path n cur ms =
      (let newPath = (if length cur > 0 \<or> path ! 0 = nm then cur @ [nm] else cur)
       in if EqualStringSlice newPath path then Inr (ms @ [n])
          else if length newPath < length path
          then search_loop k h path (kids h n) newPath ms
          else Inr ms)"
    using ne by (simp add: nm_def)
  have step: "search (Suc k) h path n cur ms =
      (if new = path then Inr (ms @ [n])
       else if length new < length path then search_loop k h path (kids h n) new ms
       else Inr ms)"
    unfolding unfold Let_def EqualStringSlice_def new ..
  have pruned: "found path below = []" if "new \<noteq> []" "length path \<le> length new"
    unfolding below_def using _ that
    by (rule found_pruned) (simp only: new_def)
  show ?case
  proof (cases "new = path")
    case True
    then have "found path below = []" using ne by (intro pruned) simp_all
    then show ?thesis using True step head
      by (simp add: wk found_Cons del: search.simps walk.simps)
  next
    case False
    show ?thesis
    proof (cases "length new < length path")
      case True
      have "search_loop k h path (kids h n) new ms = Inr (ms @ found path below)"
        unfolding below_def
      proof (rule search_loop_found [OF _ wds])
        fix c ms'
        assume "within_depth k h c"
        then show "search k h path c new ms' = Inr (ms' @ found path (walk k h c (trail @ [nm])))"
          by (rule Suc.IH) (simp only: new_def)
      qed
      then show ?thesis using False True step head
        by (simp add: wk found_Cons del: search.simps walk.simps)
    next
      case long: False
      then have "length path \<le> length new" by simp
      moreover from this ne have "new \<noteq> []" by auto
      ultimately have "found path below = []" by (intro pruned)
      then show ?thesis using False long step head
        by (simp add: wk found_Cons del: search.simps walk.simps)
    qed
  qed
qed

text \<open>
  Claim C5, as the code has it. For a search path that is not empty, on a tree of at most
  \<open>k\<close> levels, \<^verbatim>\<open>SearchChildren\<close> returns, in pre-order, exactly the nodes whose name path
  from the root of the search is \<open>q @ path\<close> for some \<open>q\<close> in which the first segment
  of the path does not occur: the names are compared from the first node on the way down
  whose name is the first segment, and the nodes above it are skipped. A node whose
  name path counted from there is a proper prefix of the path or goes on after it is not
  returned.
\<close>

theorem SearchChildren_anchored:
  assumes "within_depth k h n" and "path \<noteq> []"
  shows "SearchChildren k h n path = Inr (found path (walk k h n [])) \<and>
         (\<forall>names. anchored path names = (\<exists>q. names = q @ path \<and> hd path \<notin> set q))"
  using search_found [OF assms(2) assms(1), of "[]" "[]" "[]"] anchored_iff [OF assms(2)]
  by (simp add: SearchChildren_def)

text \<open>
  The claim as stated fails when the root of the search is not named by the first segment:
  searched from x, the path root / counters / cpu_busy returns the two nodes whose name
  path from the root of the search is x / root / counters / cpu_busy.
\<close>

theorem SearchChildren_below_root_counterexample:
  "SearchChildren 4 search_heap 0 [''root'', ''counters'', ''cpu_busy''] = Inr [3, 6] \<and>
   map_of (walk 4 search_heap 0 []) 3 = Some [''x'', ''root'', ''counters'', ''cpu_busy''] \<and>
   map_of (walk 4 search_heap 0 []) 6 = Some [''x'', ''root'', ''counters'', ''cpu_busy'']"
  by code_simp

text \<open>
  The same search as an instance of the theorem: neither the leaf named root below y nor
  the node cpu_busy below cpu_busy is returned.
\<close>

theorem SearchChildren_anchored_witness:
  "within_depth 5 search_heap 0 \<and>
   found [''root'', ''counters'', ''cpu_busy''] (walk 5 search_heap 0 []) = [3, 6] \<and>
   SearchChildren 5 search_heap 0 [''root'', ''counters'', ''cpu_busy''] = Inr [3, 6] \<and>
   anchored [''root'', ''counters'', ''cpu_busy''] [''x'', ''root'', ''counters'', ''cpu_busy'']"
proof -
  have wd: "within_depth 5 search_heap 0" by code_simp
  have ne: "[''root'', ''counters'', ''cpu_busy''] \<noteq> []" by simp
  have f: "found [''root'', ''counters'', ''cpu_busy''] (walk 5 search_heap 0 []) = [3, 6]"
    by code_simp
  have q: "[''x'', ''root'', ''counters'', ''cpu_busy''] = [''x''] @ [''root'', ''counters'', ''cpu_busy'']
      \<and> hd [''root'', ''counters'', ''cpu_busy''] \<notin> set [''x'']"
    by simp
  from SearchChildren_anchored [OF wd ne]
  have s: "SearchChildren 5 search_heap 0 [''root'', ''counters'', ''cpu_busy''] =
            Inr (found [''root'', ''counters'', ''cpu_busy''] (walk 5 search_heap 0 []))"
    and a: "anchored [''root'', ''counters'', ''cpu_busy''] [''x'', ''root'', ''counters'', ''cpu_busy''] =
      (\<exists>q. [''x'', ''root'', ''counters'', ''cpu_busy''] = q @ [''root'', ''counters'', ''cpu_busy'']
          \<and> hd [''root'', ''counters'', ''cpu_busy''] \<notin> set q)"
    by blast+
  from a q have "anchored [''root'', ''counters'', ''cpu_busy''] [''x'', ''root'', ''counters'', ''cpu_busy'']"
    by blast
  with wd f s show ?thesis by simp
qed

section \<open>Copy builds a tree of new nodes\<close>

lemma node_eq:
  assumes "nodes g n = nodes h n"
  shows "kids g n = kids h n" "GetName g n = GetName h n" "GetContent g n = GetContent h n"
    "GetXMLNameS g n = GetXMLNameS h n"
  using assms by (simp_all add: kids_def GetName_def GetContent_def GetXMLNameS_def)

lemma agree_refl: "agree lo hi h h"
  by (simp add: agree_def)

lemma tree_in_agree: "tree_in k lo hi h n \<Longrightarrow> agree lo hi g h \<Longrightarrow> tree_in k lo hi g n"
proof (induction k arbitrary: n)
  case 0
  then show ?case by simp
next
  case (Suc k)
  then have n: "lo \<le> n" "n < hi" and ks: "list_all (tree_in k lo hi h) (kids h n)"
    by simp_all
  have "nodes g n = nodes h n" using Suc.prems(2) n by (simp add: agree_def)
  then have "kids g n = kids h n" by (rule node_eq)
  moreover have "list_all (tree_in k lo hi g) (kids h n)"
    using ks Suc.IH Suc.prems(2) by (auto simp: list_all_iff)
  ultimately show ?case using n by simp
qed

lemma tree_in_widen:
  "tree_in k lo hi h n \<Longrightarrow> lo' \<le> lo \<Longrightarrow> hi \<le> hi' \<Longrightarrow> tree_in k lo' hi' h n"
proof (induction k arbitrary: n)
  case 0
  then show ?case by simp
next
  case (Suc k)
  then show ?case by (auto simp: list_all_iff)
qed

lemma tree_in_within_depth: "tree_in k lo hi h n \<Longrightarrow> within_depth k h n"
proof (induction k arbitrary: n)
  case 0
  then show ?case by simp
next
  case (Suc k)
  then show ?case by (auto simp: list_all_iff)
qed

lemma copy_of_agree:
  "copy_of k h h1 n c \<Longrightarrow> tree_in k slo shi h n \<Longrightarrow> tree_in k lo hi h1 c \<Longrightarrow>
   agree slo shi g h \<Longrightarrow> agree lo hi g1 h1 \<Longrightarrow> copy_of k g g1 n c"
proof (induction k arbitrary: n c)
  case 0
  then show ?case by simp
next
  case (Suc k)
  from Suc.prems(2,4) have en: "nodes g n = nodes h n" by (simp add: agree_def)
  from Suc.prems(3,5) have ec: "nodes g1 c = nodes h1 c" by (simp add: agree_def)
  from Suc.prems(1) have l2: "list_all2 (copy_of k h h1) (kids h n) (kids h1 c)" by simp
  from Suc.prems(2) have la: "list_all (tree_in k slo shi h) (kids h n)" by simp
  from Suc.prems(3) have lb: "list_all (tree_in k lo hi h1) (kids h1 c)" by simp
  have "list_all2 (copy_of k g g1) (kids h n) (kids h1 c)"
    using l2 la lb Suc.IH Suc.prems(4,5)
    by (auto simp: list_all2_conv_all_nth list_all_length)
  then show ?case
    using Suc.prems(1) node_eq [OF en] node_eq [OF ec] ec by simp
qed

lemma copy_of_agree_list:
  assumes "list_all2 (copy_of k h h1) xs ys" and "list_all (tree_in k slo shi h) xs"
    and "list_all (tree_in k lo hi h1) ys" and "agree slo shi g h" and "agree lo hi g1 h1"
  shows "list_all2 (copy_of k g g1) xs ys"
proof -
  have len: "length xs = length ys" using assms(1) by (rule list_all2_lengthD)
  have "copy_of k g g1 (xs ! i) (ys ! i)" if "i < length xs" for i
  proof -
    have "copy_of k h h1 (xs ! i) (ys ! i)" using assms(1) that by (simp add: list_all2_conv_all_nth)
    moreover have "tree_in k slo shi h (xs ! i)" using assms(2) that by (simp add: list_all_length)
    moreover have "tree_in k lo hi h1 (ys ! i)" using assms(3) that len by (simp add: list_all_length)
    ultimately show ?thesis using assms(4,5) by (rule copy_of_agree)
  qed
  then show ?thesis using len by (simp add: list_all2_conv_all_nth)
qed

lemma Copy_loop_spec:
  assumes IH: "\<And>g x. tree_in k 0 b g x \<Longrightarrow> b \<le> next_ref g \<Longrightarrow>
      \<exists>g1. Copy k g x = Inr (g1, next_ref g) \<and> next_ref g < next_ref g1 \<and>
           agree 0 (next_ref g) g1 g \<and>
           tree_in k (next_ref g) (next_ref g1) g1 (next_ref g) \<and>
           copy_of k g g1 x (next_ref g)"
  shows "list_all (tree_in k 0 b g) cs \<Longrightarrow> b \<le> clone \<Longrightarrow> clone < next_ref g \<Longrightarrow>
     \<exists>g' ds. Copy_loop k clone cs g = Inr g' \<and> next_ref g \<le> next_ref g' \<and>
        (\<forall>r < next_ref g. r \<noteq> clone \<longrightarrow> nodes g' r = nodes g r) \<and>
        kids g' clone = kids g clone @ ds \<and>
        GetName g' clone = GetName g clone \<and>
        Content (nodes g' clone) = Content (nodes g clone) \<and>
        list_all2 (copy_of k g g') cs ds \<and>
        list_all (tree_in k (next_ref g) (next_ref g') g') ds"
proof (induction cs arbitrary: g)
  case Nil
  then show ?case by simp
next
  case (Cons x cs)
  from Cons.prems have x: "tree_in k 0 b g x" and rest: "list_all (tree_in k 0 b g) cs"
    and bg: "b \<le> next_ref g"
    by simp_all
  from IH [OF x bg] obtain g1 where
    copy: "Copy k g x = Inr (g1, next_ref g)" and grow1: "next_ref g < next_ref g1"
    and keep1: "agree 0 (next_ref g) g1 g"
    and tree1: "tree_in k (next_ref g) (next_ref g1) g1 (next_ref g)"
    and shape1: "copy_of k g g1 x (next_ref g)"
    by blast
  define c where "c = next_ref g"
  define g2 where "g2 = update g1 clone (\<lambda>v. v\<lparr>Children := Some (kids g1 clone @ [c])\<rparr>)"
  have step: "Copy_loop k clone (x # cs) g = Copy_loop k clone cs g2"
    using copy by (simp add: g2_def c_def)
  have clone1: "nodes g1 clone = nodes g clone"
    using keep1 Cons.prems(3) by (simp add: agree_def)
  have next2: "next_ref g2 = next_ref g1" by (simp add: g2_def update_next_ref)
  have other2: "nodes g2 r = nodes g1 r" if "r \<noteq> clone" for r
    using that by (simp add: g2_def update_nodes)
  have kids2: "kids g2 clone = kids g clone @ [c]"
    using node_eq(1) [OF clone1] by (simp add: g2_def kids_update_Children)
  have name2: "GetName g2 clone = GetName g clone"
    using clone1 by (simp add: g2_def update_nodes GetName_def GetXMLNameS_def)
  have content2: "Content (nodes g2 clone) = Content (nodes g clone)"
    using clone1 by (simp add: g2_def update_nodes)
  have agree2: "agree 0 b g2 g"
    unfolding agree_def
  proof (intro allI impI)
    fix r assume r: "0 \<le> r \<and> r < b"
    then have "r \<noteq> clone" "r < next_ref g" using Cons.prems(2) bg by simp_all
    then show "nodes g2 r = nodes g r" using other2 keep1 by (simp add: agree_def)
  qed
  have rest2: "list_all (tree_in k 0 b g2) cs"
    using rest agree2 by (auto simp: list_all_iff intro: tree_in_agree)
  have clone2: "clone < next_ref g2" using Cons.prems(3) grow1 next2 by simp
  from Cons.IH [OF rest2 Cons.prems(2) clone2] obtain g' ds where
    loop: "Copy_loop k clone cs g2 = Inr g'" and grow: "next_ref g2 \<le> next_ref g'"
    and keep: "\<forall>r < next_ref g2. r \<noteq> clone \<longrightarrow> nodes g' r = nodes g2 r"
    and kids': "kids g' clone = kids g2 clone @ ds"
    and name': "GetName g' clone = GetName g2 clone"
    and content': "Content (nodes g' clone) = Content (nodes g2 clone)"
    and shape: "list_all2 (copy_of k g2 g') cs ds"
    and trees: "list_all (tree_in k (next_ref g2) (next_ref g') g') ds"
    by blast
  have keep_all: "\<forall>r < next_ref g. r \<noteq> clone \<longrightarrow> nodes g' r = nodes g r"
  proof (intro allI impI)
    fix r assume r: "r < next_ref g" "r \<noteq> clone"
    then have "nodes g' r = nodes g2 r" using keep grow1 next2 by simp
    also have "\<dots> = nodes g1 r" using r(2) by (rule other2)
    also have "\<dots> = nodes g r" using keep1 r(1) by (simp add: agree_def)
    finally show "nodes g' r = nodes g r" .
  qed
  have agree_c: "agree c (next_ref g1) g' g1"
    unfolding agree_def
  proof (intro allI impI)
    fix r assume r: "c \<le> r \<and> r < next_ref g1"
    then have ne: "r \<noteq> clone" using Cons.prems(3) by (simp add: c_def)
    from r have "nodes g' r = nodes g2 r" using keep ne next2 by simp
    then show "nodes g' r = nodes g1 r" using other2 [OF ne] by simp
  qed
  have shape_c: "copy_of k g g' x c"
    using shape1 x tree1 agree_refl agree_c unfolding c_def by (rule copy_of_agree)
  have tree_c: "tree_in k (next_ref g) (next_ref g') g' c"
  proof -
    have "tree_in k c (next_ref g1) g' c"
      using tree1 agree_c unfolding c_def by (rule tree_in_agree)
    then show ?thesis using grow next2 by (auto simp: c_def intro: tree_in_widen)
  qed
  have shape_rest: "list_all2 (copy_of k g g') cs ds"
  proof -
    have "agree 0 b g g2" using agree2 by (simp add: agree_def)
    with shape rest2 trees show ?thesis using agree_refl by (rule copy_of_agree_list)
  qed
  have trees_rest: "list_all (tree_in k (next_ref g) (next_ref g') g') ds"
    using trees grow1 next2 by (auto simp: list_all_iff intro: tree_in_widen)
  have "Copy_loop k clone (x # cs) g = Inr g'" using step loop by simp
  moreover have "next_ref g \<le> next_ref g'" using grow1 next2 grow by simp
  moreover have "kids g' clone = kids g clone @ (c # ds)" using kids' kids2 by simp
  moreover have "GetName g' clone = GetName g clone" using name' name2 by simp
  moreover have "Content (nodes g' clone) = Content (nodes g clone)" using content' content2 by simp
  moreover have "list_all2 (copy_of k g g') (x # cs) (c # ds)" using shape_c shape_rest by simp
  moreover have "list_all (tree_in k (next_ref g) (next_ref g') g') (c # ds)"
    using tree_c trees_rest by simp
  ultimately show ?case using keep_all by blast
qed

lemma Copy_spec:
  "tree_in k 0 b h n \<Longrightarrow> b \<le> next_ref h \<Longrightarrow>
     \<exists>h'. Copy k h n = Inr (h', next_ref h) \<and> next_ref h < next_ref h' \<and>
          agree 0 (next_ref h) h' h \<and>
          tree_in k (next_ref h) (next_ref h') h' (next_ref h) \<and>
          copy_of k h h' n (next_ref h)"
proof (induction k arbitrary: h n)
  case 0
  then show ?case by simp
next
  case (Suc k)
  define a where "a = next_ref h"
  define v where "v = (if GetXMLNameS h n \<noteq> []
                       then zero_Node\<lparr>XMLName := \<lparr>Space = [], Local = GetName h n\<rparr>\<rparr>
                       else zero_Node\<lparr>name := GetName h n\<rparr>)"
  define h1 where "h1 = h\<lparr>nodes := (nodes h)(a := v), next_ref := Suc a\<rparr>"
  define h2 where "h2 = SetContent h1 a (GetContent h1 n)"
  from Suc.prems have n: "n < b" and ks: "list_all (tree_in k 0 b h) (kids h n)" by simp_all
  have na: "n \<noteq> a" "n < a" using n Suc.prems(2) by (simp_all add: a_def)
  have new: "(if GetXMLNameS h n \<noteq> [] then NewXML h (GetName h n) else New h (GetName h n)) = (h1, a)"
    by (simp add: NewXML_def NewXMLS_def New_def alloc_def h1_def v_def a_def)
  have unfold: "Copy (Suc k) h n =
      (case Copy_loop k a (kids h2 n) h2 of Inl e \<Rightarrow> Inl e | Inr h3 \<Rightarrow> Inr (h3, a))"
    unfolding Copy.simps new Let_def h2_def by simp
  have nodes2: "nodes h2 r = nodes h r" if "r \<noteq> a" for r
    using that by (simp add: h2_def SetContent_def update_nodes h1_def)
  have next2: "next_ref h2 = Suc a" by (simp add: h2_def SetContent_def update_next_ref h1_def)
  have content1: "GetContent h1 n = GetContent h n"
    using na by (intro node_eq) (simp add: h1_def)
  have clone1: "nodes h1 a = v" by (simp add: h1_def)
  have clone2: "nodes h2 a = v\<lparr>Content := GetContent h n\<rparr>"
    by (simp add: h2_def SetContent_def update_nodes clone1 content1)
  have kids2: "kids h2 a = []" by (simp add: clone2 kids_def v_def zero_Node_def)
  have name2: "GetName h2 a = GetName h n"
    by (simp add: GetName_def GetXMLNameS_def clone2 v_def zero_Node_def zero_Name_def)
  have agree2: "agree 0 b h2 h"
    using Suc.prems(2) by (auto simp: agree_def a_def intro: nodes2)
  have ks2: "list_all (tree_in k 0 b h2) (kids h2 n)"
  proof -
    have "kids h2 n = kids h n" using na by (intro node_eq nodes2)
    moreover have "list_all (tree_in k 0 b h2) (kids h n)"
      using ks agree2 by (auto simp: list_all_iff intro: tree_in_agree)
    ultimately show ?thesis by simp
  qed
  have kn: "kids h2 n = kids h n" using na by (intro node_eq nodes2)
  have ba: "b \<le> a" using Suc.prems(2) by (simp add: a_def)
  have a2: "a < next_ref h2" by (simp add: next2)
  from Copy_loop_spec [where k = k and b = b and g = h2 and cs = "kids h2 n" and clone = a,
      OF Suc.IH ks2 ba a2]
  obtain h3 ds where
    loop: "Copy_loop k a (kids h2 n) h2 = Inr h3" and grow: "next_ref h2 \<le> next_ref h3"
    and keep: "\<forall>r < next_ref h2. r \<noteq> a \<longrightarrow> nodes h3 r = nodes h2 r"
    and kids3: "kids h3 a = kids h2 a @ ds"
    and name3: "GetName h3 a = GetName h2 a"
    and content3: "Content (nodes h3 a) = Content (nodes h2 a)"
    and shape: "list_all2 (copy_of k h2 h3) (kids h2 n) ds"
    and trees: "list_all (tree_in k (next_ref h2) (next_ref h3) h3) ds"
    by blast
  have res: "Copy (Suc k) h n = Inr (h3, next_ref h)" using unfold loop by (simp add: a_def)
  have grow3: "next_ref h < next_ref h3" using grow next2 by (simp add: a_def)
  have agree3: "agree 0 (next_ref h) h3 h"
    unfolding agree_def
  proof (intro allI impI)
    fix r assume "0 \<le> r \<and> r < next_ref h"
    then have r: "r < next_ref h2" "r \<noteq> a" by (simp_all add: next2 a_def)
    then have "nodes h3 r = nodes h2 r" using keep by simp
    then show "nodes h3 r = nodes h r" using nodes2 [OF r(2)] by simp
  qed
  have tree3: "tree_in (Suc k) (next_ref h) (next_ref h3) h3 (next_ref h)"
  proof -
    have "list_all (tree_in k a (next_ref h3) h3) ds"
      using trees next2 by (auto simp: list_all_iff intro: tree_in_widen)
    then show ?thesis using grow3 kids3 kids2 by (simp add: a_def)
  qed
  have shape3: "copy_of (Suc k) h h3 n (next_ref h)"
  proof -
    have "agree 0 b h h2" using agree2 by (simp add: agree_def)
    with shape ks2 trees have "list_all2 (copy_of k h h3) (kids h2 n) ds"
      using agree_refl by (rule copy_of_agree_list)
    then have "list_all2 (copy_of k h h3) (kids h n) (kids h3 a)"
      using kn kids3 kids2 by simp
    moreover have "GetName h3 a = GetName h n" using name3 name2 by simp
    moreover have "Content (nodes h3 a) = GetContent h n" using content3 clone2 by simp
    ultimately show ?thesis by (simp add: a_def)
  qed
  show ?case using res grow3 agree3 tree3 shape3 by blast
qed

text \<open>
  Claim C6, as the code has it. For a tree of at most \<open>k\<close> levels whose nodes are all
  allocated, \<^verbatim>\<open>Copy\<close> returns a node \<open>clone\<close> that is a copy of \<open>n\<close> in the sense of
  \<open>copy_of\<close>: same names and same children structure, and as content the effective content
  of the source (trimmed, and empty when it starts with the marker), not its raw content.
  Every node of the copy is new, the nodes of the source are what they were, and an update
  of a child of the copy, whatever it writes, leaves every node of the source unchanged.
\<close>

theorem Copy_same_shape_fresh_nodes:
  assumes "tree_in k 0 (next_ref h) h n"
  shows "\<exists>h' clone. Copy k h n = Inr (h', clone) \<and>
           copy_of k h h' n clone \<and>
           tree_in k (next_ref h) (next_ref h') h' clone \<and>
           (\<forall>r < next_ref h. nodes h' r = nodes h r) \<and>
           (\<forall>c \<in> set (kids h' clone). \<forall>f. \<forall>r < next_ref h. nodes (update h' c f) r = nodes h r)"
proof -
  from Copy_spec [OF assms order_refl] obtain h' where
    res: "Copy k h n = Inr (h', next_ref h)" and grow: "next_ref h < next_ref h'"
    and keep: "agree 0 (next_ref h) h' h"
    and tree: "tree_in k (next_ref h) (next_ref h') h' (next_ref h)"
    and shape: "copy_of k h h' n (next_ref h)"
    by blast
  have old: "\<forall>r < next_ref h. nodes h' r = nodes h r" using keep by (simp add: agree_def)
  have "next_ref h \<le> c" if "c \<in> set (kids h' (next_ref h))" for c
  proof (cases k)
    case 0
    then show ?thesis using tree by simp
  next
    case (Suc j)
    then have "list_all (tree_in j (next_ref h) (next_ref h') h') (kids h' (next_ref h))"
      using tree by simp
    then have "tree_in j (next_ref h) (next_ref h') h' c" using that by (simp add: list_all_iff)
    then show ?thesis by (cases j) simp_all
  qed
  then have fresh: "\<forall>c \<in> set (kids h' (next_ref h)). next_ref h \<le> c" by blast
  have "\<forall>c \<in> set (kids h' (next_ref h)). \<forall>f. \<forall>r < next_ref h.
      nodes (update h' c f) r = nodes h r"
  proof (intro ballI allI impI)
    fix c f r
    assume "c \<in> set (kids h' (next_ref h))" and r: "r < next_ref h"
    then have "r \<noteq> c" using fresh by auto
    then show "nodes (update h' c f) r = nodes h r" using old r by (simp add: update_nodes)
  qed
  then show ?thesis using res shape tree old by blast
qed

text \<open>
  The claim as stated fails for the content: the root with the padded content and the leaf
  with the markup content are copied with the contents top and empty.
\<close>

theorem Copy_raw_content_counterexample:
  "GetContentS copy_heap 0 = '' top '' \<and> GetContentS copy_heap 2 = ''<x/>'' \<and>
   copy_contents (Copy 3 copy_heap 0) [4, 7] = Some (4, [''top'', []])"
  by code_simp

text \<open>
  The copy of the example tree has the addresses 4 to 7, the names and the shape of the
  source, and writing to its child at 5 leaves the source child at 1 as it was.
\<close>

theorem Copy_same_shape_fresh_nodes_witness:
  "tree_in 3 0 (next_ref copy_heap) copy_heap 0 \<and>
   (case Copy 3 copy_heap 0 of
      Inl e \<Rightarrow> False
    | Inr (h', clone) \<Rightarrow>
        copy_of 3 copy_heap h' 0 clone \<and>
        tree_in 3 (next_ref copy_heap) (next_ref h') h' clone \<and>
        nodes (update h' 5 (\<lambda>v. v\<lparr>Content := ''changed''\<rparr>)) 1 = nodes copy_heap 1) \<and>
   copy_contents (Copy 3 copy_heap 0) [4, 5, 6, 7] = Some (4, [''top'', ''1'', ''3'', []]) \<and>
   map_sum id (\<lambda>r. walk 3 (fst r) (snd r) []) (Copy 3 copy_heap 0) =
     Inr [(4, [''r'']), (5, [''r'', ''a'']), (6, [''r'', ''a'', ''c'']), (7, [''r'', ''b''])]"
proof -
  have t: "tree_in 3 0 (next_ref copy_heap) copy_heap 0" by code_simp
  have n: "1 < next_ref copy_heap" by code_simp
  have c: "copy_contents (Copy 3 copy_heap 0) [4, 5, 6, 7] = Some (4, [''top'', ''1'', ''3'', []])"
    by code_simp
  have w: "map_sum id (\<lambda>r. walk 3 (fst r) (snd r) []) (Copy 3 copy_heap 0) =
     Inr [(4, [''r'']), (5, [''r'', ''a'']), (6, [''r'', ''a'', ''c'']), (7, [''r'', ''b''])]"
    by code_simp
  from Copy_same_shape_fresh_nodes [OF t] obtain h' clone where
    res: "Copy 3 copy_heap 0 = Inr (h', clone)"
    and shape: "copy_of 3 copy_heap h' 0 clone"
    and tree: "tree_in 3 (next_ref copy_heap) (next_ref h') h' clone"
    and mut: "\<forall>c \<in> set (kids h' clone). \<forall>f. \<forall>r < next_ref copy_heap.
        nodes (update h' c f) r = nodes copy_heap r"
    by blast
  from c res have clone: "clone = 4" by (simp add: copy_contents_def)
  from w res have "walk 3 h' clone [] =
      [(4, [''r'']), (5, [''r'', ''a'']), (6, [''r'', ''a'', ''c'']), (7, [''r'', ''b''])]"
    by simp
  then have "5 \<in> set (kids h' clone)"
    by (simp add: numeral_3_eq_3 clone) (cases "kids h' 4", auto)
  with mut n have "nodes (update h' 5 (\<lambda>v. v\<lparr>Content := ''changed''\<rparr>)) 1 = nodes copy_heap 1"
    by blast
  with t res shape tree c w show ?thesis by simp
qed

section \<open>The loop of Merge, child by child\<close>

lemma Merge_loop_Cons:
  "Merge_loop k n (child # rest) skipOverwrite h =
     (case Merge_child k n child skipOverwrite h of
        Inl e \<Rightarrow> Inl e
      | Inr h' \<Rightarrow> Merge_loop k n rest skipOverwrite h')"
proof (cases "length (GetName h child) = 0")
  case True
  then show ?thesis
    by (auto simp: Merge_child_def Let_def split: option.splits)
next
  case False
  then show ?thesis
    by (cases "GetChild h n (GetName h child)") (simp_all add: Merge_child_def Let_def)
qed

lemma Merge_loop_append:
  "Merge_loop k n (xs @ ys) skipOverwrite h =
     (case Merge_loop k n xs skipOverwrite h of
        Inl e \<Rightarrow> Inl e
      | Inr h' \<Rightarrow> Merge_loop k n ys skipOverwrite h')"
proof (induction xs arbitrary: h)
  case Nil
  then show ?case by simp
next
  case (Cons x xs)
  show ?case
  proof (cases "Merge_child k n x skipOverwrite h")
    case (Inl e)
    then show ?thesis
      by (simp only: append_Cons Merge_loop_Cons sum.case)
  next
    case (Inr h')
    then show ?thesis
      by (simp only: append_Cons Merge_loop_Cons sum.case Cons.IH)
  qed
qed

lemma update_same: "f (nodes h r) = nodes h r \<Longrightarrow> update h r f = h"
  by (simp add: update_def)

section \<open>Merge: anonymous children are not duplicated\<close>

lemma Merge_child_anonymous:
  "GetName h c = [] \<Longrightarrow> Merge_child k n c skipOverwrite h = Inr (anon_step h n c)"
  by (auto simp: Merge_child_def anon_step_def anon_target_def Let_def split: option.splits)

lemma nodes_AddChild:
  "nodes (AddChild h t c) = (nodes h)(t := (nodes h t)\<lparr>Children := Some (kids h t @ [c])\<rparr>)"
  by (simp add: AddChild_def update_nodes)

lemma AddChild_fields:
  "GetContentS (AddChild h t c) y = GetContentS h y"
  "GetName (AddChild h t c) y = GetName h y"
  "GetParent (AddChild h t c) y = GetParent h y"
  "Content (nodes (AddChild h t c) y) = Content (nodes h y)"
  by (simp_all add: nodes_AddChild GetContentS_def GetName_def GetXMLNameS_def GetParent_def)

lemma kids_AddChild: "kids (AddChild h t c) u = (if u = t then kids h t @ [c] else kids h u)"
  by (simp add: nodes_AddChild kids_def)

lemma find_snoc: "find P (xs @ [c]) = (case find P xs of Some m \<Rightarrow> Some m | None \<Rightarrow> if P c then Some c else None)"
  by (induction xs) auto

lemma GetChild_AddChild:
  "GetChild (AddChild h t c) u nm =
     (if u = t then (case GetChild h t nm of Some m \<Rightarrow> Some m
                     | None \<Rightarrow> if GetName h c = nm then Some c else None)
      else GetChild h u nm)"
  by (simp add: GetChild_def kids_AddChild AddChild_fields find_snoc)

lemma count_content_AddChild:
  "count_content (AddChild h t c) u x =
     count_content h u x + (if u = t \<and> GetContentS h c = x then 1 else 0)"
  by (simp add: count_content_def kids_AddChild AddChild_fields)

lemma GetChildByContent_None: "(GetChildByContent h t x = None) = (count_content h t x = 0)"
  by (auto simp: GetChildByContent_def count_content_def find_None_iff filter_empty_conv)

lemma anon_target_empty: "anon_target h n x = Some t \<Longrightarrow> count_content h t x = 0"
  by (auto simp: anon_target_def GetChildByContent_None split: option.splits if_splits)

lemma anon_step_fields:
  "GetContentS (anon_step h n c) y = GetContentS h y"
  "GetName (anon_step h n c) y = GetName h y"
  "GetParent (anon_step h n c) y = GetParent h y"
  "Content (nodes (anon_step h n c) y) = Content (nodes h y)"
  by (simp_all add: anon_step_def AddChild_fields split: option.splits)

lemma count_content_anon_step:
  "count_content (anon_step h n c) u x =
     count_content h u x + (if anon_target h n (GetContentS h c) = Some u \<and> GetContentS h c = x then 1 else 0)"
  by (auto simp: anon_step_def count_content_AddChild split: option.splits)

lemma count_content_anon_step_le:
  "count_content (anon_step h n c) u x \<le> max 1 (count_content h u x)"
  using anon_target_empty [of h n "GetContentS h c" u]
  by (auto simp: count_content_anon_step)

lemma count_content_anon_step_ge:
  "count_content h u x \<le> count_content (anon_step h n c) u x"
  by (simp add: count_content_anon_step)

lemma GetChild_anon_step:
  "GetChild h n nm = Some m \<Longrightarrow> GetChild (anon_step h n' c) n nm = Some m"
  by (auto simp: anon_step_def GetChild_AddChild split: option.splits)

lemma placed_anon_step: "placed h n x \<Longrightarrow> placed (anon_step h n c) n x"
  unfolding placed_def
proof (elim disjE exE conjE)
  assume "1 \<le> count_content h n x"
  then have "1 \<le> count_content (anon_step h n c) n x"
    using count_content_anon_step_ge [of h n x n c] by simp
  then show "1 \<le> count_content (anon_step h n c) n x \<or>
      (\<exists>m p. GetChild (anon_step h n c) n [] = Some m \<and> GetParent (anon_step h n c) m = Some p \<and>
             p \<noteq> n \<and> 1 \<le> count_content (anon_step h n c) p x)"
    by simp
next
  fix m p
  assume m: "GetChild h n [] = Some m" and p: "GetParent h m = Some p" "p \<noteq> n"
    and c: "1 \<le> count_content h p x"
  have "GetChild (anon_step h n c) n [] = Some m" using m by (rule GetChild_anon_step)
  moreover have "GetParent (anon_step h n c) m = Some p" using p by (simp add: anon_step_fields)
  moreover have "1 \<le> count_content (anon_step h n c) p x"
    using c count_content_anon_step_ge [of h p x n c] by simp
  ultimately show "1 \<le> count_content (anon_step h n c) n x \<or>
      (\<exists>m p. GetChild (anon_step h n c) n [] = Some m \<and> GetParent (anon_step h n c) m = Some p \<and>
             p \<noteq> n \<and> 1 \<le> count_content (anon_step h n c) p x)"
    using p(2) by blast
qed

lemma placed_after_step:
  assumes "GetContentS h c = x"
  shows "placed (anon_step h n c) n x"
proof (cases "anon_target h n x")
  case None
  then have "count_content h n x \<noteq> 0"
    by (auto simp: anon_target_def GetChildByContent_None split: option.splits if_splits)
  then have "1 \<le> count_content (anon_step h n c) n x"
    using count_content_anon_step_ge [of h n x n c] by simp
  then show ?thesis by (simp add: placed_def)
next
  case (Some t)
  have ct: "count_content (anon_step h n c) t x = 1"
    using Some assms anon_target_empty [OF Some] by (simp add: count_content_anon_step)
  show ?thesis
  proof (cases "t = n")
    case True
    then show ?thesis using ct by (simp add: placed_def)
  next
    case False
    with Some obtain m where m: "GetChild h n [] = Some m" "GetParent h m = Some t"
      by (auto simp: anon_target_def split: option.splits if_splits)
    have "GetChild (anon_step h n c) n [] = Some m" using m(1) by (rule GetChild_anon_step)
    moreover have "GetParent (anon_step h n c) m = Some t" using m(2) by (simp add: anon_step_fields)
    ultimately show ?thesis using False ct by (auto simp: placed_def)
  qed
qed

lemma count_after_placed_step:
  assumes "placed h n x" and "GetContentS h c = x"
  shows "count_content (anon_step h n c) n x = max 1 (count_content h n x)"
proof (cases "1 \<le> count_content h n x")
  case True
  then have "anon_target h n x \<noteq> Some n" using anon_target_empty [of h n x n] by auto
  then show ?thesis using True assms(2) by (simp add: count_content_anon_step)
next
  case False
  with assms(1) obtain m p where m: "GetChild h n [] = Some m" "GetParent h m = Some p"
      "p \<noteq> n" "1 \<le> count_content h p x"
    by (auto simp: placed_def)
  from False have z: "count_content h n x = 0" by simp
  have "anon_target h n x = Some n"
    using m z by (simp add: anon_target_def GetChildByContent_None)
  then show ?thesis using z assms(2) by (simp add: count_content_anon_step)
qed

lemma anon_run_simps:
  "anon_run h n [] = h" "anon_run h n (c # cs) = anon_run (anon_step h n c) n cs"
  by (simp_all add: anon_run_def)

lemma Merge_loop_anonymous:
  "list_all (\<lambda>c. GetName h c = []) cs \<Longrightarrow>
   Merge_loop k n cs skipOverwrite h = Inr (anon_run h n cs)"
proof (induction cs arbitrary: h)
  case Nil
  then show ?case by (simp add: anon_run_simps)
next
  case (Cons c cs)
  then have c: "GetName h c = []" and rest: "list_all (\<lambda>c. GetName h c = []) cs" by simp_all
  have "list_all (\<lambda>d. GetName (anon_step h n c) d = []) cs"
    using rest by (simp add: anon_step_fields)
  then have "Merge_loop k n cs skipOverwrite (anon_step h n c) = Inr (anon_run (anon_step h n c) n cs)"
    by (rule Cons.IH)
  then show ?case
    using c by (simp add: Merge_loop_Cons Merge_child_anonymous anon_run_simps del: Merge_loop.simps)
qed

lemma anon_run_fields:
  "GetContentS (anon_run h n cs) y = GetContentS h y"
  "GetName (anon_run h n cs) y = GetName h y"
  "GetParent (anon_run h n cs) y = GetParent h y"
  "Content (nodes (anon_run h n cs) y) = Content (nodes h y)"
  by (induction cs arbitrary: h) (simp_all add: anon_run_simps anon_step_fields)

lemma count_content_anon_run:
  "count_content h u x \<le> count_content (anon_run h n cs) u x \<and>
   count_content (anon_run h n cs) u x \<le> max 1 (count_content h u x)"
proof (induction cs arbitrary: h)
  case Nil
  then show ?case by (simp add: anon_run_simps)
next
  case (Cons c cs)
  have a: "count_content h u x \<le> count_content (anon_step h n c) u x"
    by (rule count_content_anon_step_ge)
  have b: "count_content (anon_step h n c) u x \<le> max 1 (count_content h u x)"
    by (rule count_content_anon_step_le)
  from Cons.IH [of "anon_step h n c"] a b show ?case
    by (auto simp: anon_run_simps)
qed

lemma placed_anon_run: "placed h n x \<Longrightarrow> placed (anon_run h n cs) n x"
  by (induction cs arbitrary: h) (simp_all add: anon_run_simps placed_anon_step)

lemma count_content_anon_step_keep:
  "1 \<le> count_content h n x \<Longrightarrow> count_content (anon_step h n c) n x = count_content h n x"
  using anon_target_empty [of h n x n] by (auto simp: count_content_anon_step)

lemma count_content_anon_run_keep:
  "1 \<le> count_content h n x \<Longrightarrow> count_content (anon_run h n cs) n x = count_content h n x"
  by (induction cs arbitrary: h) (simp_all add: anon_run_simps count_content_anon_step_keep)

text \<open>
  Claim C4, as the code has it. Let the loop of \<^verbatim>\<open>Merge\<close> reach, in the store \<open>h2\<close>, a run
  of anonymous children of the subtemplate that starts with \<open>c1\<close> and ends with \<open>c2\<close>, both
  of the content \<open>x\<close>. After the run the receiver has exactly one child of the content \<open>x\<close>
  if it had none or one before, and as many as before otherwise. No node gets a second
  child of a content through the run: a child is appended to a node only when that node has
  no child of the same content. Contents, names and parent pointers are untouched. When
  the children that follow the run are anonymous too, all this holds of the store that
  \<^verbatim>\<open>Merge\<close> returns, the final tree. A named child that follows is merged by its name,
  whatever its content.
\<close>

theorem Merge_anonymous_dedup:
  assumes h1: "h1 = (if length (Content (nodes h n)) = 0
                     then update h n (\<lambda>v. v\<lparr>Content := Content (nodes h subtemplate)\<rparr>) else h)"
    and cs: "kids h1 subtemplate = pre @ c1 # mid @ c2 # rest"
    and reach: "Merge_loop k n pre skipOverwrite h1 = Inr h2"
    and anon: "GetName h2 c1 = []" "list_all (\<lambda>c. GetName h2 c = []) mid" "GetName h2 c2 = []"
    and same: "GetContentS h2 c1 = x" "GetContentS h2 c2 = x"
  shows "(\<exists>h4. Merge (Suc k) n (Some subtemplate) skipOverwrite h = Merge_loop k n rest skipOverwrite h4 \<and>
              count_content h4 n x = max 1 (count_content h2 n x) \<and>
              (\<forall>t y. count_content h2 t y \<le> count_content h4 t y \<and>
                     count_content h4 t y \<le> max 1 (count_content h2 t y)) \<and>
              (\<forall>r. Content (nodes h4 r) = Content (nodes h2 r) \<and> GetName h4 r = GetName h2 r \<and>
                   GetParent h4 r = GetParent h2 r)) \<and>
         (list_all (\<lambda>c. GetName h2 c = []) rest \<longrightarrow>
            (\<exists>hf. Merge (Suc k) n (Some subtemplate) skipOverwrite h = Inr hf \<and>
                  count_content hf n x = max 1 (count_content h2 n x) \<and>
                  (count_content h2 n x \<le> 1 \<longrightarrow> count_content hf n x = 1) \<and>
                  (\<forall>t y. count_content h2 t y \<le> count_content hf t y \<and>
                         count_content hf t y \<le> max 1 (count_content h2 t y)) \<and>
                  (\<forall>r. Content (nodes hf r) = Content (nodes h2 r) \<and> GetName hf r = GetName h2 r \<and>
                       GetParent hf r = GetParent h2 r)))"
proof -
  let ?run = "c1 # mid @ [c2]"
  define h3 where "h3 = anon_step h2 n c1"
  define h3' where "h3' = anon_run h3 n mid"
  define h4 where "h4 = anon_step h3' n c2"
  have all: "list_all (\<lambda>c. GetName h2 c = []) ?run" using anon by simp
  have run: "anon_run h2 n ?run = h4"
    by (simp add: anon_run_def h3_def h3'_def h4_def)
  have "Merge (Suc k) n (Some subtemplate) skipOverwrite h =
        Merge_loop k n (pre @ ?run @ rest) skipOverwrite h1"
    using h1 cs by (simp add: Let_def)
  also have "\<dots> = Merge_loop k n (?run @ rest) skipOverwrite h2"
    using reach by (simp only: Merge_loop_append sum.case)
  also have "\<dots> = Merge_loop k n rest skipOverwrite h4"
    using Merge_loop_anonymous [OF all, of k n skipOverwrite] run
    by (simp only: Merge_loop_append sum.case)
  finally have res: "Merge (Suc k) n (Some subtemplate) skipOverwrite h =
      Merge_loop k n rest skipOverwrite h4" .
  have c2x: "GetContentS h3' c2 = x"
    using same(2) by (simp add: h3'_def h3_def anon_run_fields anon_step_fields)
  have p3: "placed h3 n x" unfolding h3_def using same(1) by (rule placed_after_step)
  then have p3': "placed h3' n x" unfolding h3'_def by (rule placed_anon_run)
  have last: "count_content h4 n x = max 1 (count_content h3' n x)"
    unfolding h4_def using p3' c2x by (rule count_after_placed_step)
  have bounds: "count_content h2 t y \<le> count_content h4 t y \<and>
      count_content h4 t y \<le> max 1 (count_content h2 t y)" for t y
    using count_content_anon_run [of h2 t y n ?run] run by simp
  have mid: "count_content h2 n x \<le> count_content h3' n x \<and>
      count_content h3' n x \<le> max 1 (count_content h2 n x)"
    using count_content_anon_run [of h2 n x n "c1 # mid"]
    by (simp add: anon_run_simps h3'_def h3_def)
  have count: "count_content h4 n x = max 1 (count_content h2 n x)"
    using last mid by (auto simp: max_def)
  have fields: "Content (nodes h4 r) = Content (nodes h2 r) \<and> GetName h4 r = GetName h2 r \<and>
      GetParent h4 r = GetParent h2 r" for r
    using anon_run_fields [of h2 n ?run r] run by simp
  have first: "\<exists>h4. Merge (Suc k) n (Some subtemplate) skipOverwrite h = Merge_loop k n rest skipOverwrite h4 \<and>
              count_content h4 n x = max 1 (count_content h2 n x) \<and>
              (\<forall>t y. count_content h2 t y \<le> count_content h4 t y \<and>
                     count_content h4 t y \<le> max 1 (count_content h2 t y)) \<and>
              (\<forall>r. Content (nodes h4 r) = Content (nodes h2 r) \<and> GetName h4 r = GetName h2 r \<and>
                   GetParent h4 r = GetParent h2 r)"
    using res count bounds fields by blast
  have final: "\<exists>hf. Merge (Suc k) n (Some subtemplate) skipOverwrite h = Inr hf \<and>
                  count_content hf n x = max 1 (count_content h2 n x) \<and>
                  (count_content h2 n x \<le> 1 \<longrightarrow> count_content hf n x = 1) \<and>
                  (\<forall>t y. count_content h2 t y \<le> count_content hf t y \<and>
                         count_content hf t y \<le> max 1 (count_content h2 t y)) \<and>
                  (\<forall>r. Content (nodes hf r) = Content (nodes h2 r) \<and> GetName hf r = GetName h2 r \<and>
                       GetParent hf r = GetParent h2 r)"
    if tail: "list_all (\<lambda>c. GetName h2 c = []) rest"
  proof -
    define hf where "hf = anon_run h4 n rest"
    have "list_all (\<lambda>c. GetName h4 c = []) rest" using tail fields by simp
    then have "Merge_loop k n rest skipOverwrite h4 = Inr hf"
      unfolding hf_def by (rule Merge_loop_anonymous)
    then have r: "Merge (Suc k) n (Some subtemplate) skipOverwrite h = Inr hf"
      using res by simp
    have whole: "anon_run h2 n (?run @ rest) = hf"
      using run by (simp add: anon_run_def hf_def)
    have "1 \<le> count_content h4 n x" using count by simp
    then have "count_content hf n x = count_content h4 n x"
      unfolding hf_def by (rule count_content_anon_run_keep)
    then have c: "count_content hf n x = max 1 (count_content h2 n x)" using count by simp
    then have one: "count_content h2 n x \<le> 1 \<longrightarrow> count_content hf n x = 1" by auto
    have b: "count_content h2 t y \<le> count_content hf t y \<and>
      count_content hf t y \<le> max 1 (count_content h2 t y)" for t y
      using count_content_anon_run [of h2 t y n "?run @ rest"] whole by simp
    have f: "Content (nodes hf r) = Content (nodes h2 r) \<and> GetName hf r = GetName h2 r \<and>
      GetParent hf r = GetParent h2 r" for r
      using anon_run_fields [of h2 n "?run @ rest" r] whole by simp
    show ?thesis using r c one b f by blast
  qed
  show ?thesis using first final by blast
qed

text \<open>
  Two children of the content v in the final tree. A receiver that holds two such children
  keeps both when v, v is merged into it; and after the anonymous children v, v a child
  named k of the content v is adopted by its name, so that the receiver ends with two
  children of the content v.
\<close>

theorem Merge_anonymous_two_counterexample:
  "kids anon_heap_two 3 = [4, 5] \<and>
   GetName anon_heap_two 4 = [] \<and> GetName anon_heap_two 5 = [] \<and>
   GetContentS anon_heap_two 4 = ''v'' \<and> GetContentS anon_heap_two 5 = ''v'' \<and>
   result_kids (Merge 2 0 (Some 3) [] anon_heap_two) 0 = Some [1, 2] \<and>
   result_count (Merge 2 0 (Some 3) [] anon_heap_two) 0 ''v'' = Some 2 \<and>
   kids anon_heap_named 1 = [2, 3, 4] \<and>
   GetName anon_heap_named 2 = [] \<and> GetName anon_heap_named 3 = [] \<and>
   GetContentS anon_heap_named 2 = ''v'' \<and> GetContentS anon_heap_named 3 = ''v'' \<and>
   kids anon_heap_named 0 = [] \<and>
   result_kids (Merge 2 0 (Some 1) [] anon_heap_named) 0 = Some [2, 4] \<and>
   result_count (Merge 2 0 (Some 1) [] anon_heap_named) 0 ''v'' = Some 2"
  by code_simp

text \<open>Merging v, w, v into the receiver with the child u leaves it with u, v, w.\<close>

theorem Merge_anonymous_dedup_witness:
  "kids anon_heap 2 = [] @ 3 # [4] @ 5 # [] \<and>
   GetName anon_heap 3 = [] \<and> GetName anon_heap 4 = [] \<and> GetName anon_heap 5 = [] \<and>
   GetContentS anon_heap 3 = ''v'' \<and> GetContentS anon_heap 5 = ''v'' \<and>
   count_content anon_heap 0 ''v'' = 0 \<and>
   result_count (Merge (Suc 1) 0 (Some 2) [] anon_heap) 0 ''v'' = Some 1 \<and>
   result_kids (Merge (Suc 1) 0 (Some 2) [] anon_heap) 0 = Some [1, 3, 4]"
proof -
  have h1: "anon_heap = (if length (Content (nodes anon_heap 0)) = 0
       then update anon_heap 0 (\<lambda>v. v\<lparr>Content := Content (nodes anon_heap 2)\<rparr>) else anon_heap)"
    by (simp add: anon_heap_def store_def plain_def)
  have cs: "kids anon_heap 2 = [] @ 3 # [4] @ 5 # []" by code_simp
  have reach: "Merge_loop 1 0 [] [] anon_heap = Inr anon_heap" by simp
  have a1: "GetName anon_heap 3 = []" and a2: "list_all (\<lambda>c. GetName anon_heap c = []) [4]"
    and a3: "GetName anon_heap 5 = []"
    by code_simp+
  have a2': "GetName anon_heap 4 = []" using a2 by simp
  have s1: "GetContentS anon_heap 3 = ''v''" and s2: "GetContentS anon_heap 5 = ''v''"
    by code_simp+
  have z: "count_content anon_heap 0 ''v'' = 0" by code_simp
  have ks: "result_kids (Merge (Suc 1) 0 (Some 2) [] anon_heap) 0 = Some [1, 3, 4]"
    by code_simp
  have tail: "list_all (\<lambda>c. GetName anon_heap c = []) []" by simp
  from Merge_anonymous_dedup [OF h1 cs reach a1 a2 a3 s1 s2] tail obtain hf where
    res: "Merge (Suc 1) 0 (Some 2) [] anon_heap = Inr hf"
    and count: "count_content hf 0 ''v'' = max 1 (count_content anon_heap 0 ''v'')"
    by blast
  have "result_count (Merge (Suc 1) 0 (Some 2) [] anon_heap) 0 ''v'' = Some 1"
    using count z res by (simp add: result_count_def del: Merge.simps)
  then show ?thesis using cs a1 a2' a3 s1 s2 z ks by blast
qed

section \<open>Merge: overwrite or accumulate\<close>

text \<open>
  Claim C3, as the code has it. Let the loop of \<^verbatim>\<open>Merge\<close> reach the child \<open>c\<close> of the
  subtemplate in the store \<open>h2\<close>, and let \<open>mine\<close> be the first child of the receiver of the
  name of \<open>c\<close>. When \<open>c\<close> has a name, the content of \<open>mine\<close> is set to its old content, a
  comma and the content of \<open>c\<close> if the parent pointer of \<open>mine\<close> is set and leads to a node
  whose name is in the skip-overwrite list, and to the content of \<open>c\<close> otherwise. What
  decides is the node the parent pointer of \<open>mine\<close> leads to, not the node \<open>mine\<close> is listed
  under: a child without a parent pointer is overwritten whatever the list holds.
  \<^verbatim>\<open>Merge\<close> then merges \<open>c\<close> into \<open>mine\<close> and goes on with the children that are left; when
  \<open>c\<close> is a leaf that inner merge changes nothing, so the store with the new content is the
  one the loop goes on with, and the one \<^verbatim>\<open>Merge\<close> returns when \<open>c\<close> is the last child.
  When \<open>c\<close> has no name, no content is changed.
\<close>

theorem Merge_skip_overwrite:
  assumes h1: "h1 = (if length (Content (nodes h n)) = 0
                     then update h n (\<lambda>v. v\<lparr>Content := Content (nodes h subtemplate)\<rparr>) else h)"
    and cs: "kids h1 subtemplate = pre @ c # rest"
    and reach: "Merge_loop k n pre skipOverwrite h1 = Inr h2"
    and mine: "GetChild h2 n (GetName h2 c) = Some mine"
    and h3: "h3 = update h2 mine (\<lambda>v. v\<lparr>Content :=
                (if (case GetParent h2 mine of None \<Rightarrow> False
                     | Some p \<Rightarrow> Contains skipOverwrite (GetNameS h2 p))
                 then Content (nodes h2 mine) @ '','' @ Content (nodes h2 c)
                 else Content (nodes h2 c))\<rparr>)"
  shows "(GetName h2 c \<noteq> [] \<longrightarrow>
            Merge (Suc k) n (Some subtemplate) skipOverwrite h =
              (case Merge k mine (Some c) skipOverwrite h3 of
                 Inl e \<Rightarrow> Inl e
               | Inr h4 \<Rightarrow> Merge_loop k n rest skipOverwrite h4) \<and>
            (kids h2 c = [] \<and> 0 < k \<longrightarrow>
               Merge (Suc k) n (Some subtemplate) skipOverwrite h =
                 Merge_loop k n rest skipOverwrite h3) \<and>
            (kids h2 c = [] \<and> 0 < k \<and> rest = [] \<longrightarrow>
               Merge (Suc k) n (Some subtemplate) skipOverwrite h = Inr h3)) \<and>
         Content (nodes h3 mine) =
           (if \<exists>p. GetParent h2 mine = Some p \<and> GetNameS h2 p \<in> set skipOverwrite
            then Content (nodes h2 mine) @ '','' @ Content (nodes h2 c)
            else Content (nodes h2 c)) \<and>
         (GetParent h2 mine = None \<longrightarrow> Content (nodes h3 mine) = Content (nodes h2 c)) \<and>
         (GetName h2 c = [] \<longrightarrow>
            (\<exists>h5. Merge (Suc k) n (Some subtemplate) skipOverwrite h =
                     Merge_loop k n rest skipOverwrite h5 \<and>
                   (\<forall>r. Content (nodes h5 r) = Content (nodes h2 r))))"
proof -
  have "Merge (Suc k) n (Some subtemplate) skipOverwrite h =
        Merge_loop k n (pre @ c # rest) skipOverwrite h1"
    using h1 cs by (simp add: Let_def)
  also have "\<dots> = Merge_loop k n (c # rest) skipOverwrite h2"
    using reach by (simp add: Merge_loop_append)
  finally have start: "Merge (Suc k) n (Some subtemplate) skipOverwrite h =
      (case Merge_child k n c skipOverwrite h2 of
         Inl e \<Rightarrow> Inl e
       | Inr h' \<Rightarrow> Merge_loop k n rest skipOverwrite h')"
    by (simp only: Merge_loop_Cons)
  have main: "Merge (Suc k) n (Some subtemplate) skipOverwrite h =
           (case Merge k mine (Some c) skipOverwrite h3 of
              Inl e \<Rightarrow> Inl e
            | Inr h4 \<Rightarrow> Merge_loop k n rest skipOverwrite h4)"
    if "GetName h2 c \<noteq> []"
    unfolding start using that mine h3
    by (simp add: Merge_child_def Let_def SetContentS_def SetContent_def GetContentS_def)
  have leaf: "Merge k mine (Some c) skipOverwrite h3 = Inr h3" if "kids h2 c = []" "0 < k"
  proof -
    from that(2) obtain j where k: "k = Suc j" by (cases k) auto
    have kc: "kids h3 c = []"
      using that(1) by (cases "c = mine") (auto simp: h3 kids_def update_nodes)
    have same: "update h3 mine (\<lambda>v. v\<lparr>Content := Content (nodes h3 c)\<rparr>) = h3"
      if e: "Content (nodes h3 mine) = []"
    proof (rule update_same)
      have "Content (nodes h3 c) = []"
      proof (cases "c = mine")
        case True
        then show ?thesis using e by simp
      next
        case False
        then have "Content (nodes h3 c) = Content (nodes h2 c)" by (simp add: h3 update_nodes)
        moreover have "Content (nodes h2 c) = []" using e by (simp add: h3 update_nodes split: if_splits)
        ultimately show ?thesis by simp
      qed
      then show "nodes h3 mine\<lparr>Content := Content (nodes h3 c)\<rparr> = nodes h3 mine"
        using e by simp
    qed
    show ?thesis
      using kc same by (auto simp: k Let_def kids_def update_nodes)
  qed
  have named: "Merge (Suc k) n (Some subtemplate) skipOverwrite h =
              (case Merge k mine (Some c) skipOverwrite h3 of
                 Inl e \<Rightarrow> Inl e
               | Inr h4 \<Rightarrow> Merge_loop k n rest skipOverwrite h4) \<and>
            (kids h2 c = [] \<and> 0 < k \<longrightarrow>
               Merge (Suc k) n (Some subtemplate) skipOverwrite h =
                 Merge_loop k n rest skipOverwrite h3) \<and>
            (kids h2 c = [] \<and> 0 < k \<and> rest = [] \<longrightarrow>
               Merge (Suc k) n (Some subtemplate) skipOverwrite h = Inr h3)"
    if ne: "GetName h2 c \<noteq> []"
  proof -
    have "Merge (Suc k) n (Some subtemplate) skipOverwrite h = Merge_loop k n rest skipOverwrite h3"
      if "kids h2 c = []" "0 < k"
      using main [OF ne] leaf [OF that] by (simp only: sum.case)
    then show ?thesis using main [OF ne] by auto
  qed
  have content: "Content (nodes h3 mine) =
           (if \<exists>p. GetParent h2 mine = Some p \<and> GetNameS h2 p \<in> set skipOverwrite
            then Content (nodes h2 mine) @ '','' @ Content (nodes h2 c)
            else Content (nodes h2 c))"
    by (cases "GetParent h2 mine") (simp_all add: h3 update_nodes Contains_def)
  have nopar: "Content (nodes h3 mine) = Content (nodes h2 c)" if "GetParent h2 mine = None"
    using that by (simp add: content)
  have anon: "\<exists>h5. Merge (Suc k) n (Some subtemplate) skipOverwrite h =
                     Merge_loop k n rest skipOverwrite h5 \<and>
                   (\<forall>r. Content (nodes h5 r) = Content (nodes h2 r))"
    if "GetName h2 c = []"
  proof -
    have "Merge (Suc k) n (Some subtemplate) skipOverwrite h =
        Merge_loop k n rest skipOverwrite (anon_step h2 n c)"
      unfolding start using that by (simp add: Merge_child_anonymous)
    then show ?thesis using anon_step_fields(4) by blast
  qed
  show ?thesis using named content nopar anon by blast
qed

text \<open>
  The child x of content a is listed under the node named labels but has no parent pointer:
  merging the override x of content b with labels in the list sets it to b. And an
  anonymous child of content a under labels, with its parent pointer set, keeps a when an
  anonymous child of content b is merged, with labels in the list or not.
\<close>

theorem Merge_parent_pointer_counterexample:
  "kids merge_heap_flat 0 = [1] \<and> GetNameS merge_heap_flat 0 = ''labels'' \<and>
   GetContentS merge_heap_flat 1 = ''a'' \<and> GetParent merge_heap_flat 1 = None \<and>
   kids merge_heap_flat 2 = [3] \<and> GetName merge_heap_flat 3 = GetName merge_heap_flat 1 \<and>
   GetContentS merge_heap_flat 3 = ''b'' \<and>
   result_content (Merge 2 0 (Some 2) [''labels''] merge_heap_flat) 1 = Some ''b'' \<and>
   kids merge_heap_anon 0 = [1] \<and> GetNameS merge_heap_anon 0 = ''labels'' \<and>
   GetContentS merge_heap_anon 1 = ''a'' \<and> GetParent merge_heap_anon 1 = Some 0 \<and>
   kids merge_heap_anon 2 = [3] \<and> GetName merge_heap_anon 3 = GetName merge_heap_anon 1 \<and>
   GetContentS merge_heap_anon 3 = ''b'' \<and>
   result_content (Merge 2 0 (Some 2) [''labels''] merge_heap_anon) 1 = Some ''a'' \<and>
   result_content (Merge 2 0 (Some 2) [] merge_heap_anon) 1 = Some ''a''"
  by code_simp

text \<open>
  The example of the specification: with the parent pointer set, a and b give a,b with
  labels in the list and b without; without the parent pointer they give b.
\<close>

theorem Merge_skip_overwrite_witness:
  "GetChild merge_heap 0 (GetName merge_heap 3) = Some 1 \<and>
   GetParent merge_heap 1 = Some 0 \<and> GetNameS merge_heap 0 = ''labels'' \<and>
   GetContentS merge_heap 1 = ''a'' \<and> GetContentS merge_heap 3 = ''b'' \<and>
   result_content (Merge (Suc 1) 0 (Some 2) [''labels''] merge_heap) 1 = Some ''a,b'' \<and>
   result_content (Merge (Suc 1) 0 (Some 2) [] merge_heap) 1 = Some ''b'' \<and>
   GetChild merge_heap_flat 0 (GetName merge_heap_flat 3) = Some 1 \<and>
   GetParent merge_heap_flat 1 = None \<and> GetNameS merge_heap_flat 0 = ''labels'' \<and>
   GetContentS merge_heap_flat 1 = ''a'' \<and> GetContentS merge_heap_flat 3 = ''b'' \<and>
   result_content (Merge (Suc 1) 0 (Some 2) [''labels''] merge_heap_flat) 1 = Some ''b''"
proof -
  have h1: "merge_heap = (if length (Content (nodes merge_heap 0)) = 0
       then update merge_heap 0 (\<lambda>v. v\<lparr>Content := Content (nodes merge_heap 2)\<rparr>) else merge_heap)"
    by (simp add: merge_heap_def store_def plain_def)
  have cs: "kids merge_heap 2 = [] @ 3 # []" by code_simp
  have reach: "Merge_loop 1 0 [] sk merge_heap = Inr merge_heap" for sk by simp
  have named: "GetName merge_heap 3 \<noteq> []" by code_simp
  have mine: "GetChild merge_heap 0 (GetName merge_heap 3) = Some 1" by code_simp
  have par: "GetParent merge_heap 1 = Some 0" by code_simp
  have nm: "GetNameS merge_heap 0 = ''labels''" by code_simp
  have a: "Content (nodes merge_heap 1) = ''a''" and b: "Content (nodes merge_heap 3) = ''b''"
    by (simp_all add: merge_heap_def store_def plain_def)
  have leaf: "kids merge_heap 3 = [] \<and> 0 < (1::nat)" by code_simp
  define hs where "hs sk = update merge_heap 1 (\<lambda>v. v\<lparr>Content :=
                (if (case GetParent merge_heap 1 of None \<Rightarrow> False
                     | Some p \<Rightarrow> Contains sk (GetNameS merge_heap p))
                 then Content (nodes merge_heap 1) @ '','' @ Content (nodes merge_heap 3)
                 else Content (nodes merge_heap 3))\<rparr>)" for sk
  note th = Merge_skip_overwrite [where h = merge_heap and ?h1.0 = merge_heap and n = 0
        and subtemplate = 2 and pre = "[]" and c = 3 and rest = "[]" and k = 1
        and ?h2.0 = merge_heap and mine = 1, OF h1 cs reach mine hs_def]
  have r1: "Merge (Suc 1) 0 (Some 2) sk merge_heap = Inr (hs sk)" for sk
    using th [of sk] leaf named by blast
  have r2: "Content (nodes (hs sk) 1) =
        (if \<exists>p. GetParent merge_heap 1 = Some p \<and> GetNameS merge_heap p \<in> set sk
         then Content (nodes merge_heap 1) @ '','' @ Content (nodes merge_heap 3)
         else Content (nodes merge_heap 3))" for sk
    using th [of sk] by blast
  have r: "Merge (Suc 1) 0 (Some 2) sk merge_heap = Inr (hs sk) \<and>
        Content (nodes (hs sk) 1) = (if ''labels'' \<in> set sk then ''a,b'' else ''b'')" for sk
    using r1 [of sk] r2 [of sk] nm a b par by (simp del: Merge.simps)
  have e1: "result_content (Merge (Suc 1) 0 (Some 2) [''labels''] merge_heap) 1 = Some ''a,b''"
    using r [of "[''labels'']"] by (simp add: result_content_def del: Merge.simps)
  have e2: "result_content (Merge (Suc 1) 0 (Some 2) [] merge_heap) 1 = Some ''b''"
    using r [of "[]"] by (simp add: result_content_def del: Merge.simps)
  have fh1: "merge_heap_flat = (if length (Content (nodes merge_heap_flat 0)) = 0
       then update merge_heap_flat 0 (\<lambda>v. v\<lparr>Content := Content (nodes merge_heap_flat 2)\<rparr>)
       else merge_heap_flat)"
    by (simp add: merge_heap_flat_def store_def plain_def)
  have fcs: "kids merge_heap_flat 2 = [] @ 3 # []" by code_simp
  have freach: "Merge_loop 1 0 [] [''labels''] merge_heap_flat = Inr merge_heap_flat" by simp
  have fnamed: "GetName merge_heap_flat 3 \<noteq> []" by code_simp
  have fmine: "GetChild merge_heap_flat 0 (GetName merge_heap_flat 3) = Some 1" by code_simp
  have fpar: "GetParent merge_heap_flat 1 = None" by code_simp
  have fnm: "GetNameS merge_heap_flat 0 = ''labels''" by code_simp
  have fa: "Content (nodes merge_heap_flat 1) = ''a''"
    and fb: "Content (nodes merge_heap_flat 3) = ''b''"
    by (simp_all add: merge_heap_flat_def store_def plain_def)
  have fleaf: "kids merge_heap_flat 3 = [] \<and> 0 < (1::nat)" by code_simp
  define hf where "hf = update merge_heap_flat 1 (\<lambda>v. v\<lparr>Content :=
                (if (case GetParent merge_heap_flat 1 of None \<Rightarrow> False
                     | Some p \<Rightarrow> Contains [''labels''] (GetNameS merge_heap_flat p))
                 then Content (nodes merge_heap_flat 1) @ '','' @ Content (nodes merge_heap_flat 3)
                 else Content (nodes merge_heap_flat 3))\<rparr>)"
  note fth = Merge_skip_overwrite [where h = merge_heap_flat and ?h1.0 = merge_heap_flat and n = 0
        and subtemplate = 2 and pre = "[]" and c = 3 and rest = "[]" and k = 1
        and ?h2.0 = merge_heap_flat and mine = 1 and skipOverwrite = "[''labels'']",
        OF fh1 fcs freach fmine hf_def]
  have f1: "Merge (Suc 1) 0 (Some 2) [''labels''] merge_heap_flat = Inr hf"
    using fth fleaf fnamed by blast
  have f2: "Content (nodes hf 1) = Content (nodes merge_heap_flat 3)"
    using fth fpar by blast
  have e3: "result_content (Merge (Suc 1) 0 (Some 2) [''labels''] merge_heap_flat) 1 = Some ''b''"
    using f1 f2 fb by (simp add: result_content_def del: Merge.simps)
  show ?thesis
    using mine par nm a b e1 e2 fmine fpar fnm fa fb e3 by (simp add: GetContentS_def)
qed

section \<open>PreprocessTemplate demotes the content of named children\<close>

lemma PreprocessTemplate_loop_Cons:
  "PreprocessTemplate_loop k f n (child # rest) h =
     (case PreprocessTemplate_child k f n child h of
        Inl e \<Rightarrow> Inl e
      | Inr h' \<Rightarrow> PreprocessTemplate_loop k f n rest h')"
  by (simp add: PreprocessTemplate_child_def Let_def split: option.splits sum.splits)

lemma PreprocessTemplate_loop_append:
  "PreprocessTemplate_loop k f n (xs @ ys) h =
     (case PreprocessTemplate_loop k f n xs h of
        Inl e \<Rightarrow> Inl e
      | Inr h' \<Rightarrow> PreprocessTemplate_loop k f n ys h')"
proof (induction xs arbitrary: h)
  case Nil
  then show ?case by simp
next
  case (Cons x xs)
  show ?case
  proof (cases "PreprocessTemplate_child k f n x h")
    case (Inl e)
    then show ?thesis
      by (simp only: append_Cons PreprocessTemplate_loop_Cons sum.case)
  next
    case (Inr h')
    then show ?thesis
      by (simp only: append_Cons PreprocessTemplate_loop_Cons sum.case Cons.IH)
  qed
qed

text \<open>
  The walk of \<^verbatim>\<open>searchAncestor\<close> returns whenever the parent pointers end: a bound above
  the number of ancestors is enough.
\<close>

lemma searchAncestor_returns:
  "length (ancestors f h m) < f \<Longrightarrow> \<exists>a. searchAncestor f h (Some m) nm = Inr a"
proof (induction f arbitrary: m)
  case 0
  then show ?case by simp
next
  case (Suc f)
  show ?case
  proof (cases "GetParent h m")
    case None
    then show ?thesis by simp
  next
    case (Some p)
    then have "length (ancestors f h p) < f" using Suc.prems by simp
    then obtain a where "searchAncestor f h (Some p) nm = Inr a" using Suc.IH by blast
    then show ?thesis using Some by simp
  qed
qed

lemma searchAncestor_found:
  "searchAncestor f h (Some m) nm = Inr a \<Longrightarrow>
   (a \<noteq> None) = (\<exists>p \<in> set (ancestors f h m). GetNameS h p = nm)"
proof (induction f arbitrary: m)
  case 0
  then show ?case by simp
next
  case (Suc f)
  show ?case
  proof (cases "GetParent h m")
    case None
    then show ?thesis using Suc.prems by auto
  next
    case (Some p)
    show ?thesis
    proof (cases "GetNameS h p = nm")
      case True
      then show ?thesis using Suc.prems Some by auto
    next
      case False
      then have "searchAncestor f h (Some p) nm = Inr a" using Suc.prems Some by simp
      from Suc.IH [OF this] show ?thesis using Some False by simp
    qed
  qed
qed

lemma demote_nodes:
  assumes "mine < next_ref h"
  shows "nodes (SetContentS (fst (NewChildS h mine [] content)) mine []) =
           (nodes h)(mine := (nodes h mine)\<lparr>Children := Some (kids h mine @ [next_ref h]), Content := []\<rparr>,
                     next_ref h := zero_Node\<lparr>parent := Some mine, Content := content\<rparr>)"
    and "next_ref (SetContentS (fst (NewChildS h mine [] content)) mine []) = Suc (next_ref h)"
proof -
  have ne: "mine \<noteq> next_ref h" using assms by simp
  have new: "(if GetXMLNameS h mine \<noteq> [] then NewXML h [] else New h []) =
      (h\<lparr>nodes := (nodes h)(next_ref h := zero_Node), next_ref := Suc (next_ref h)\<rparr>, next_ref h)"
    by (simp add: NewXML_def NewXMLS_def New_def alloc_def zero_Node_def zero_Name_def)
  show "nodes (SetContentS (fst (NewChildS h mine [] content)) mine []) =
           (nodes h)(mine := (nodes h mine)\<lparr>Children := Some (kids h mine @ [next_ref h]), Content := []\<rparr>,
                     next_ref h := zero_Node\<lparr>parent := Some mine, Content := content\<rparr>)"
    using ne
    by (simp add: NewChildS_def NewChild_def new SetContentS_def SetContent_def AddChild_def
        update_def kids_def fun_upd_twist)
  show "next_ref (SetContentS (fst (NewChildS h mine [] content)) mine []) = Suc (next_ref h)"
    by (simp add: NewChildS_def NewChild_def new SetContentS_def SetContent_def AddChild_def
        update_def Let_def)
qed

text \<open>
  Claim C7, as the code has it. Let the loop of \<^verbatim>\<open>PreprocessTemplate\<close> reach the child \<open>c\<close>
  in the store \<open>h2\<close>, and let \<open>mine\<close> be the first child of the receiver of the name of
  \<open>c\<close>. A child with an empty name is passed over: nothing is demoted and there is no
  recursion. For a child with a name, \<^verbatim>\<open>searchAncestor\<close> finds something exactly when a
  node up the parent pointers of \<open>mine\<close> is named LabelAgent; if so and \<open>mine\<close> holds content,
  a new node with no name, the content of \<open>c\<close> and the parent pointer \<open>mine\<close> is appended to
  the children of \<open>mine\<close> and the content of \<open>mine\<close> is cleared, and nothing else changes;
  if not, the store stays as it is. In both cases \<^verbatim>\<open>PreprocessTemplate\<close> then recurses into
  \<open>mine\<close> and goes on with the children that are left.
\<close>

theorem PreprocessTemplate_demotes_named:
  assumes cs: "kids h n = pre @ c # rest"
    and reach: "PreprocessTemplate_loop k f n pre h = Inr h2"
    and mine: "GetChild h2 n (GetName h2 c) = Some mine"
    and alloc: "mine < next_ref h2"
  shows "(GetName h2 c = [] \<longrightarrow>
            PreprocessTemplate (Suc k) f n h = PreprocessTemplate_loop k f n rest h2) \<and>
         (GetName h2 c \<noteq> [] \<longrightarrow>
            (\<forall>a. searchAncestor f h2 (Some mine) ''LabelAgent'' = Inr a \<longrightarrow>
               (a \<noteq> None) = (\<exists>p \<in> set (ancestors f h2 mine). GetNameS h2 p = ''LabelAgent'') \<and>
               (\<exists>h3. PreprocessTemplate (Suc k) f n h =
                       (case PreprocessTemplate k f mine h3 of
                          Inl e \<Rightarrow> Inl e
                        | Inr h4 \<Rightarrow> PreprocessTemplate_loop k f n rest h4) \<and>
                     (if a \<noteq> None \<and> Content (nodes h2 mine) \<noteq> []
                      then nodes h3 =
                             (nodes h2)(mine := (nodes h2 mine)\<lparr>Children := Some (kids h2 mine @ [next_ref h2]),
                                                                 Content := []\<rparr>,
                                        next_ref h2 := zero_Node\<lparr>parent := Some mine,
                                                                 Content := Content (nodes h2 c)\<rparr>) \<and>
                           next_ref h3 = Suc (next_ref h2)
                      else h3 = h2))))"
proof -
  have "PreprocessTemplate (Suc k) f n h = PreprocessTemplate_loop k f n (pre @ c # rest) h"
    using cs by simp
  also have "\<dots> = PreprocessTemplate_loop k f n (c # rest) h2"
    using reach by (simp only: PreprocessTemplate_loop_append sum.case)
  finally have start: "PreprocessTemplate (Suc k) f n h =
      (case PreprocessTemplate_child k f n c h2 of
         Inl e \<Rightarrow> Inl e
       | Inr h' \<Rightarrow> PreprocessTemplate_loop k f n rest h')"
    by (simp only: PreprocessTemplate_loop_Cons)
  have anon: "PreprocessTemplate (Suc k) f n h = PreprocessTemplate_loop k f n rest h2"
    if "GetName h2 c = []"
    unfolding start using that mine by (simp add: PreprocessTemplate_child_def)
  have named: "(a \<noteq> None) = (\<exists>p \<in> set (ancestors f h2 mine). GetNameS h2 p = ''LabelAgent'') \<and>
      (\<exists>h3. PreprocessTemplate (Suc k) f n h =
              (case PreprocessTemplate k f mine h3 of
                 Inl e \<Rightarrow> Inl e
               | Inr h4 \<Rightarrow> PreprocessTemplate_loop k f n rest h4) \<and>
            (if a \<noteq> None \<and> Content (nodes h2 mine) \<noteq> []
             then nodes h3 =
                    (nodes h2)(mine := (nodes h2 mine)\<lparr>Children := Some (kids h2 mine @ [next_ref h2]),
                                                        Content := []\<rparr>,
                               next_ref h2 := zero_Node\<lparr>parent := Some mine,
                                                        Content := Content (nodes h2 c)\<rparr>) \<and>
                  next_ref h3 = Suc (next_ref h2)
             else h3 = h2))"
    if ne: "GetName h2 c \<noteq> []" and anc: "searchAncestor f h2 (Some mine) ''LabelAgent'' = Inr a"
    for a
  proof -
    define h3 where "h3 = (if a \<noteq> None \<and> length (GetContentS h2 mine) > 0
                    then SetContentS (fst (NewChildS h2 mine [] (GetContentS h2 c))) mine []
                    else h2)"
    have run: "PreprocessTemplate (Suc k) f n h =
              (case PreprocessTemplate k f mine h3 of
                 Inl e \<Rightarrow> Inl e
               | Inr h4 \<Rightarrow> PreprocessTemplate_loop k f n rest h4)"
      unfolding start using ne mine anc by (simp add: PreprocessTemplate_child_def h3_def)
    have shape: "(if a \<noteq> None \<and> Content (nodes h2 mine) \<noteq> []
             then nodes h3 =
                    (nodes h2)(mine := (nodes h2 mine)\<lparr>Children := Some (kids h2 mine @ [next_ref h2]),
                                                        Content := []\<rparr>,
                               next_ref h2 := zero_Node\<lparr>parent := Some mine,
                                                        Content := Content (nodes h2 c)\<rparr>) \<and>
                  next_ref h3 = Suc (next_ref h2)
             else h3 = h2)"
      using demote_nodes [OF alloc, of "GetContentS h2 c"]
      by (auto simp: h3_def GetContentS_def)
    show ?thesis using searchAncestor_found [OF anc] run shape by blast
  qed
  show ?thesis using anon named by blast
qed

text \<open>
  The claim as stated fails for a child with an empty name: the anonymous child of p is
  found by its name, has LabelAgent above it and holds the content x, and it keeps the
  content and gets no child.
\<close>

theorem PreprocessTemplate_anonymous_counterexample:
  "GetChild label_heap 1 (GetName label_heap 2) = Some 2 \<and>
   searchAncestor 3 label_heap (Some 2) ''LabelAgent'' = Inr (Some 1) \<and>
   GetContentS label_heap 2 = ''x'' \<and>
   result_content (PreprocessTemplate 3 3 1 label_heap) 2 = Some ''x'' \<and>
   result_kids (PreprocessTemplate 3 3 1 label_heap) 2 = Some []"
  by code_simp

text \<open>
  The named child of p in the same store: its content y moves into the new anonymous
  child at address 4.
\<close>

theorem PreprocessTemplate_demotes_named_witness:
  "kids label_heap 1 = [2] @ 3 # [] \<and>
   PreprocessTemplate_loop 2 3 1 [2] label_heap = Inr label_heap \<and>
   GetName label_heap 3 \<noteq> [] \<and>
   GetChild label_heap 1 (GetName label_heap 3) = Some 3 \<and>
   searchAncestor 3 label_heap (Some 3) ''LabelAgent'' = Inr (Some 1) \<and>
   ancestors 3 label_heap 3 = [1, 0] \<and>
   result_content (PreprocessTemplate (Suc 2) 3 1 label_heap) 3 = Some [] \<and>
   result_content (PreprocessTemplate (Suc 2) 3 1 label_heap) 4 = Some ''y'' \<and>
   result_kids (PreprocessTemplate (Suc 2) 3 1 label_heap) 3 = Some [4]"
proof -
  have cs: "kids label_heap 1 = [2] @ 3 # []" by code_simp
  have g2: "GetChild label_heap 1 (GetName label_heap 2) = Some 2" by code_simp
  have n2: "GetName label_heap 2 = []" by code_simp
  have reach: "PreprocessTemplate_loop 2 3 1 [2] label_heap = Inr label_heap"
    using g2 n2 by simp
  have named: "GetName label_heap 3 \<noteq> []" by code_simp
  have mine: "GetChild label_heap 1 (GetName label_heap 3) = Some 3" by code_simp
  have alloc: "3 < next_ref label_heap" by code_simp
  have anc: "searchAncestor 3 label_heap (Some 3) ''LabelAgent'' = Inr (Some 1)" by code_simp
  have ancs: "ancestors 3 label_heap 3 = [1, 0]" by code_simp
  have c3: "Content (nodes label_heap 3) = ''y''" and nx: "next_ref label_heap = 4"
    and k3: "kids label_heap 3 = []"
    by (simp_all add: label_heap_def store_def plain_def kids_def)
  from PreprocessTemplate_demotes_named [OF cs reach mine alloc] named anc
  obtain h3 where
    run: "PreprocessTemplate (Suc 2) 3 1 label_heap =
            (case PreprocessTemplate 2 3 3 h3 of
               Inl e \<Rightarrow> Inl e
             | Inr h4 \<Rightarrow> PreprocessTemplate_loop 2 3 1 [] h4)"
    and shape: "if Some (1::nat) \<noteq> None \<and> Content (nodes label_heap 3) \<noteq> []
       then nodes h3 =
              (nodes label_heap)(3 := (nodes label_heap 3)\<lparr>Children := Some (kids label_heap 3 @ [next_ref label_heap]),
                                                         Content := []\<rparr>,
                                 next_ref label_heap := zero_Node\<lparr>parent := Some 3,
                                                         Content := Content (nodes label_heap 3)\<rparr>) \<and>
            next_ref h3 = Suc (next_ref label_heap)
       else h3 = label_heap"
    by blast
  from shape have nodes3: "nodes h3 =
      (nodes label_heap)(3 := (nodes label_heap 3)\<lparr>Children := Some [4], Content := []\<rparr>,
                         4 := zero_Node\<lparr>parent := Some 3, Content := ''y''\<rparr>)"
    by (simp add: c3 nx k3)
  have k: "kids h3 3 = [4]" and n4: "GetName h3 4 = []"
    and c: "Content (nodes h3 3) = []" and c4: "Content (nodes h3 4) = ''y''"
    by (simp_all add: nodes3 kids_def GetName_def GetXMLNameS_def zero_Node_def zero_Name_def)
  have g4: "GetChild h3 3 [] = Some 4" by (simp add: GetChild_def k n4)
  have inner: "PreprocessTemplate 2 3 3 h3 = Inr h3"
    by (simp add: numeral_2_eq_2 k n4 g4)
  have res: "PreprocessTemplate (Suc 2) 3 1 label_heap = Inr h3"
    using run inner by (simp del: PreprocessTemplate.simps)
  have "result_content (PreprocessTemplate (Suc 2) 3 1 label_heap) 3 = Some []"
    "result_content (PreprocessTemplate (Suc 2) 3 1 label_heap) 4 = Some ''y''"
    "result_kids (PreprocessTemplate (Suc 2) 3 1 label_heap) 3 = Some [4]"
    using res c c4 k by (simp_all add: result_content_def result_kids_def del: PreprocessTemplate.simps)
  then show ?thesis using cs reach named mine anc ancs by blast
qed

end
